theory Spec2Isabelle
  imports Complex_Main "HOL-Library.Multiset" "HOL-Library.Log_Nat"
begin

section \<open>Distributed sample sort of \<open>hpat/hiframes_sort.py\<close>\<close>

text \<open>
  The development embeds \<open>parallel_sort\<close>, the shuffle metadata helpers and the
  decision logic of \<open>sort_distributed_run\<close>.  The program is SPMD: every worker runs the
  same code on its own arrays and meets the others in collectives.  The embedding takes the
  global view: a cluster is the list of the workers' local arrays in rank order, and a
  collective is a function of all the workers' arguments.

  Python integers are \<open>int\<close>; a worker count, a rank and a loop index, which the source
  never makes negative, are \<open>nat\<close>.  The \<open>np.int32\<close> count and displacement arrays are
  lists of \<open>int\<close> whose every store goes through \<open>int32\<close>, the two's complement
  wrap-around.  A \<open>float64\<close> is the real number it stands for, and every float
  operation rounds its exact result to the nearest double.  Every raise of the source is
  a value \<open>Inl e\<close>.
\<close>

subsection \<open>Errors, sequencing and array reads\<close>

datatype error =
    IndexError
  | ValueError
  | ZeroDivisionError
  | KeyError
  | ProtocolViolation
  | UninitialisedRead

definition bindE :: "error + 'a \<Rightarrow> ('a \<Rightarrow> error + 'b) \<Rightarrow> error + 'b" where
  "bindE m f = (case m of Inl e \<Rightarrow> Inl e | Inr x \<Rightarrow> f x)"

fun mapE :: "('a \<Rightarrow> error + 'b) \<Rightarrow> 'a list \<Rightarrow> error + 'b list" where
  "mapE f [] = Inr []"
| "mapE f (x # xs) = bindE (f x) (\<lambda>y. bindE (mapE f xs) (\<lambda>ys. Inr (y # ys)))"

text \<open>
  \<open>xs[i]\<close> with a bounds check: an index below zero counts from the end, an index
  outside the array raises.
\<close>

definition py_index :: "'a list \<Rightarrow> int \<Rightarrow> error + 'a" where
  "py_index xs i =
     (if 0 \<le> i \<and> i < int (length xs) then Inr (xs ! nat i)
      else if i < 0 \<and> - int (length xs) \<le> i then Inr (xs ! nat (int (length xs) + i))
      else Inl IndexError)"

text \<open>
  \<open>parallel_sort\<close> is compiled by \<open>numba.njit\<close> (line 278), and compiled code reads
  an array without a bounds check: an index below zero is wrapped once by the length, and
  the cell is read wherever it then lies.  \<open>mem\<close> is the memory around the array:
  \<open>mem j\<close> is what a read finds at offset \<open>j\<close> from the start of the array when
  \<open>j\<close> lies outside of it.  The root's read of the sorted samples (line 304) is the one
  read of \<open>parallel_sort\<close> that can leave its array; the sampler's and the router's
  reads stay inside theirs, and the embedding keeps \<open>py_index\<close> for them.
\<close>

definition unchecked_read :: "(int \<Rightarrow> 'a) \<Rightarrow> 'a list \<Rightarrow> int \<Rightarrow> 'a" where
  "unchecked_read mem xs i =
     (let j = (if i < 0 then i + int (length xs) else i)
      in if 0 \<le> j \<and> j < int (length xs) then xs ! nat j else mem j)"

text \<open>A store into an \<open>np.int32\<close> array keeps the low 32 bits, read as a signed number.\<close>

definition int32 :: "int \<Rightarrow> int" where
  "int32 x = (x + 2147483648) mod 4294967296 - 2147483648"

subsection \<open>Double precision\<close>

text \<open>
  The compiled \<open>sampleSize / max(n_total, 1)\<close>, \<open>fraction * n_local\<close> and
  \<open>n_samples / n_pes\<close> are \<open>float64\<close> operations: an integer operand is converted
  to \<open>float64\<close>, and the conversion, the quotient and the product each round the
  exact value to the nearest double, ties to the even significand.  A double has 53
  significant bits: \<open>binade x\<close> is the exponent \<open>e\<close> with \<open>2^e \<le> x < 2^(e+1)\<close>,
  and \<open>f64 x\<close> rounds \<open>x\<close> to a multiple of \<open>2^(e-52)\<close>.  The operands are array
  lengths and worker counts, so every value lies far inside the exponent range of a
  double, and the range is not modelled.
\<close>

definition round_even :: "real \<Rightarrow> int" where
  "round_even x =
     (let n = \<lfloor>x\<rfloor>; r = x - of_int n
      in if r < 1 / 2 then n else if 1 / 2 < r then n + 1 else if even n then n else n + 1)"

definition binade :: "real \<Rightarrow> int" where
  "binade x = (if 1 \<le> x then bitlen \<lfloor>x\<rfloor> - 1 else - bitlen (\<lceil>1 / x\<rceil> - 1))"

definition f64 :: "real \<Rightarrow> real" where
  "f64 x =
     (if x = 0 then 0
      else sgn x * (of_int (round_even (\<bar>x\<bar> / 2 powi (binade \<bar>x\<bar> - 52)))
                      * 2 powi (binade \<bar>x\<bar> - 52)))"

definition f64_of_int :: "int \<Rightarrow> real" where
  "f64_of_int n = f64 (of_int n)"

definition f64_div :: "real \<Rightarrow> real \<Rightarrow> real" where
  "f64_div x y = f64 (x / y)"

definition f64_mul :: "real \<Rightarrow> real \<Rightarrow> real" where
  "f64_mul x y = f64 (x * y)"

subsection \<open>Module constants (lines 18 to 21)\<close>

definition MIN_SAMPLES :: int where
  "MIN_SAMPLES = 1000000"

definition samplePointsPerPartitionHint :: int where
  "samplePointsPerPartitionHint = 20"

definition MPI_ROOT :: nat where
  "MPI_ROOT = 0"

subsection \<open>Sampler (\<open>parallel_sort\<close>, lines 286 to 292)\<close>

definition sampleSize :: "nat \<Rightarrow> int" where
  "sampleSize n_pes = min (samplePointsPerPartitionHint * int n_pes) MIN_SAMPLES"

definition fraction :: "nat \<Rightarrow> nat \<Rightarrow> real" where
  "fraction n_pes n_total =
     min (f64_div (f64_of_int (sampleSize n_pes)) (f64_of_int (max (int n_total) 1))) 1"

definition n_loc_samples :: "nat \<Rightarrow> nat \<Rightarrow> nat \<Rightarrow> int" where
  "n_loc_samples n_pes n_total n_local =
     min \<lceil>f64_mul (fraction n_pes n_total) (f64_of_int (int n_local))\<rceil> (int n_local)"

text \<open>
  \<open>np.random.randint(low, high, size)\<close> belongs to NumPy, not to the repository.  It is
  modelled with an injected entropy source \<open>g\<close>: draw \<open>j\<close> is \<open>g j\<close> reduced into
  \<open>[low, high)\<close>; an empty range raises as soon as one draw is asked for.
\<close>

definition randint :: "(nat \<Rightarrow> nat) \<Rightarrow> int \<Rightarrow> int \<Rightarrow> int \<Rightarrow> error + int list" where
  "randint g low high sz =
     (if sz < 0 then Inl ValueError
      else if 0 < sz \<and> high \<le> low then Inl ValueError
      else Inr (map (\<lambda>j. low + int (g j) mod (high - low)) [0..<nat sz]))"

text \<open>\<open>samples = key_arr[inds]\<close> with \<open>inds\<close> drawn as above.\<close>

definition sampler :: "(nat \<Rightarrow> nat) \<Rightarrow> nat \<Rightarrow> nat \<Rightarrow> 'k list \<Rightarrow> error + 'k list" where
  "sampler g n_pes n_total key_arr =
     (let n_local = length key_arr
      in bindE (randint g 0 (int n_local) (n_loc_samples n_pes n_total n_local))
           (\<lambda>inds. mapE (py_index key_arr) inds))"

subsection \<open>Bounds coordinator (\<open>parallel_sort\<close>, lines 295 to 309)\<close>

text \<open>
  \<open>gatherv\<close> hands the root the samples of all workers, concatenated in rank order.  The
  root sorts them and reads one cut per worker but the last; \<open>bounds\<close> is allocated with
  \<open>n_pes - 1\<close> cells and the loop stores into each of them.  The index is clamped from
  above only: with no sample it is \<open>-1\<close>, and the read is outside of the array.
\<close>

definition gatherv :: "'a list list \<Rightarrow> 'a list" where
  "gatherv samples = concat samples"

definition step_of :: "nat \<Rightarrow> nat \<Rightarrow> error + int" where
  "step_of n_samples n_pes =
     (if n_pes = 0 then Inl ZeroDivisionError
      else Inr \<lceil>f64_div (f64_of_int (int n_samples)) (f64_of_int (int n_pes))\<rceil>)"

definition root_bounds :: "(int \<Rightarrow> 'k) \<Rightarrow> nat \<Rightarrow> ('k::linorder) list \<Rightarrow> error + 'k list" where
  "root_bounds mem n_pes all_samples =
     (let sorted_samples = sort all_samples;
          n_samples = length sorted_samples
      in bindE (step_of n_samples n_pes)
           (\<lambda>step. Inr (map (\<lambda>i. unchecked_read mem sorted_samples
                                     (min ((int i + 1) * step) (int n_samples - 1)))
                              [0..<n_pes - 1])))"

text \<open>\<open>bcast\<close>: after it every worker holds the root's value.\<close>

definition bcast :: "nat \<Rightarrow> 'a \<Rightarrow> 'a list" where
  "bcast n_pes root_value = replicate n_pes root_value"

definition bounds_coordinator ::
  "(int \<Rightarrow> 'k) \<Rightarrow> nat \<Rightarrow> ('k::linorder) list list \<Rightarrow> error + 'k list list" where
  "bounds_coordinator mem n_pes samples =
     bindE (root_bounds mem n_pes (gatherv samples)) (\<lambda>bounds. Inr (bcast n_pes bounds))"

subsection \<open>Shuffle metadata (lines 333 to 375)\<close>

text \<open>
  The class \<open>ShuffleMeta\<close>.  \<open>out_arr\<close> is a buffer whose cells are \<open>None\<close> until they are
  written (\<open>np.empty\<close>).  The four string fields are \<open>None\<close> for a numeric array.
\<close>

record 'k ShuffleMeta =
  send_counts :: "int list"
  recv_counts :: "int list"
  out_arr :: "'k option list"
  n_out :: int
  send_disp :: "int list"
  recv_disp :: "int list"
  send_counts_char :: "unit option"
  recv_counts_char :: "unit option"
  send_arr_lens :: "unit option"
  send_arr_chars :: "unit option"

text \<open>
  \<open>shuff_meta_impl\<close>: the send counts start at zero.  The receive counts are
  \<open>np.empty\<close>; \<open>out_arr\<close> holds the input array and the two displacement fields hold
  the count arrays themselves, as placeholders.  \<open>finalize_impl\<close> replaces the
  placeholders and fills \<open>recv_counts\<close> before anything reads them, so the model gives
  them the values they have at allocation.
\<close>

definition alloc_shuffle_metadata :: "'k list \<Rightarrow> nat \<Rightarrow> 'k ShuffleMeta" where
  "alloc_shuffle_metadata arr n_pes =
     \<lparr>send_counts = replicate n_pes 0,
      recv_counts = replicate n_pes 0,
      out_arr = map Some arr,
      n_out = 0,
      send_disp = replicate n_pes 0,
      recv_disp = replicate n_pes 0,
      send_counts_char = None,
      recv_counts_char = None,
      send_arr_lens = None,
      send_arr_chars = None\<rparr>"

text \<open>\<open>shuffle_meta.send_counts[node_id] += 1\<close> on an \<open>int32\<close> array.\<close>

definition update_shuffle_meta :: "'k ShuffleMeta \<Rightarrow> nat \<Rightarrow> error + 'k ShuffleMeta" where
  "update_shuffle_meta shuffle_meta node_id =
     (if node_id < length (send_counts shuffle_meta)
      then Inr (shuffle_meta\<lparr>send_counts :=
                  (send_counts shuffle_meta)
                    [node_id := int32 (send_counts shuffle_meta ! node_id + 1)]\<rparr>)
      else Inl IndexError)"

subsection \<open>Partition router (\<open>parallel_sort\<close>, lines 312 to 317)\<close>

text \<open>
  One iteration of the loop body: the test reads \<open>bounds[node_id]\<close> only when
  \<open>node_id < n_pes - 1\<close> (\<open>and\<close> short-circuits) and advances \<open>node_id\<close> by at most one.
\<close>

definition advance :: "nat \<Rightarrow> ('k::linorder) list \<Rightarrow> nat \<Rightarrow> 'k \<Rightarrow> error + nat" where
  "advance n_pes bounds node_id key =
     (if node_id < n_pes - 1
      then bindE (py_index bounds (int node_id))
             (\<lambda>b. Inr (if b \<le> key then node_id + 1 else node_id))
      else Inr node_id)"

text \<open>
  The loop over the local rows.  Besides the metadata it returns the trace of the
  \<open>node_id\<close> passed to \<open>update_shuffle_meta\<close> for each row: the row's destination.
\<close>

fun route_loop ::
  "nat \<Rightarrow> ('k::linorder) list \<Rightarrow> 'k list \<Rightarrow> nat \<Rightarrow> 'k ShuffleMeta
     \<Rightarrow> error + (nat list \<times> 'k ShuffleMeta)" where
  "route_loop n_pes bounds [] node_id shuffle_meta = Inr ([], shuffle_meta)"
| "route_loop n_pes bounds (key # keys) node_id shuffle_meta =
     bindE (advance n_pes bounds node_id key)
       (\<lambda>node_id'. bindE (update_shuffle_meta shuffle_meta node_id')
          (\<lambda>shuffle_meta'. bindE (route_loop n_pes bounds keys node_id' shuffle_meta')
             (\<lambda>(dests, m). Inr (node_id' # dests, m))))"

definition route ::
  "nat \<Rightarrow> ('k::linorder) list \<Rightarrow> 'k list \<Rightarrow> error + (nat list \<times> 'k ShuffleMeta)" where
  "route n_pes key_arr bounds =
     route_loop n_pes bounds key_arr 0 (alloc_shuffle_metadata key_arr n_pes)"

text \<open>The router the specification asks for: the number of boundaries at or below a key.\<close>

definition upper_bound :: "('k::linorder) list \<Rightarrow> 'k \<Rightarrow> nat" where
  "upper_bound bounds x = length (filter (\<lambda>b. b \<le> x) bounds)"

subsection \<open>Collaborators outside the source file\<close>

text \<open>
  Modelled from the spec: \<open>hpat.timsort.sort\<close> is missing (only its calls at lines 207 and
  259 are in the source).  Section 4.5 of the specification: it sorts the range
  \<open>[lo, hi)\<close> of the key sequence ascending and stably, and every data column goes
  through the same moves.  The model sorts the row indices of the range by key with the
  stable insertion sort of the library and reads keys and columns through the sorted
  indices.  The columns are as long as the key array.
\<close>

definition timsort_sort ::
  "('k::linorder) list \<Rightarrow> nat \<Rightarrow> nat \<Rightarrow> 'v list list \<Rightarrow> 'k list \<times> 'v list list" where
  "timsort_sort key_arr lo hi data =
     (let perm = [0..<lo] @ sort_key (\<lambda>i. key_arr ! i) [lo..<hi] @ [hi..<length key_arr]
      in (map (\<lambda>i. key_arr ! i) perm, map (\<lambda>col. map (\<lambda>i. col ! i) perm) data))"

text \<open>
  Modelled from the spec: \<open>hpat.hiframes_join.calc_disp\<close> is missing.  Section 4.4: the
  displacements are the exclusive prefix sums of the counts.  They are stored in an
  \<open>int32\<close> array (the \<open>send_disp\<close> and \<open>recv_disp\<close> fields at lines 363 and 364).
\<close>

fun calc_disp_from :: "int \<Rightarrow> int list \<Rightarrow> int list" where
  "calc_disp_from acc [] = []"
| "calc_disp_from acc (c # cs) = acc # calc_disp_from (int32 (acc + c)) cs"

definition calc_disp :: "int list \<Rightarrow> int list" where
  "calc_disp arr = calc_disp_from 0 arr"

text \<open>
  Modelled from the spec: the collectives of \<open>hpat.distributed_api\<close> are missing.
  Section 6: \<open>dist_reduce\<close> with \<open>Sum\<close> adds the workers' values; \<open>alltoall\<close> of one
  count per peer gives worker \<open>r\<close> the cell \<open>r\<close> of every worker's send vector.
\<close>

definition dist_reduce_sum :: "nat list \<Rightarrow> nat" where
  "dist_reduce_sum n_locals = sum_list n_locals"

definition alltoall :: "int list list \<Rightarrow> error + int list list" where
  "alltoall sends =
     mapE (\<lambda>r. mapE (\<lambda>s. py_index (sends ! s) (int r)) [0..<length sends])
       [0..<length sends]"

text \<open>
  Modelled from the spec: \<open>hpat.distributed_api.alltoallv\<close> is missing.  Sections 4.4
  and 6 (\<open>exchangeData\<close>): worker \<open>s\<close> sends to worker \<open>r\<close> the \<open>sendcounts[r]\<close> elements
  of its send buffer from \<open>sdispls[r]\<close> on; worker \<open>r\<close> writes what \<open>s\<close> sent at
  \<open>rdispls[s]\<close> of its receive buffer.  A segment outside a buffer, a negative count, and
  a receive count that differs from the matching send count are protocol violations.
\<close>

record 'a alltoallv_args =
  sendbuf :: "'a list"
  recvbuf :: "'a option list"
  sendcounts :: "int list"
  recvcounts :: "int list"
  sdispls :: "int list"
  rdispls :: "int list"

definition slice :: "'a list \<Rightarrow> int \<Rightarrow> int \<Rightarrow> error + 'a list" where
  "slice buf displ cnt =
     (if cnt < 0 \<or> displ < 0 \<or> int (length buf) < displ + cnt then Inl ProtocolViolation
      else Inr (take (nat cnt) (drop (nat displ) buf)))"

definition write_at :: "'a option list \<Rightarrow> int \<Rightarrow> 'a list \<Rightarrow> error + 'a option list" where
  "write_at buf displ seg =
     (if displ < 0 \<or> int (length buf) < displ + int (length seg) then Inl ProtocolViolation
      else Inr (take (nat displ) buf @ map Some seg @ drop (nat displ + length seg) buf))"

definition sent_segment :: "'a alltoallv_args list \<Rightarrow> nat \<Rightarrow> nat \<Rightarrow> error + 'a list" where
  "sent_segment calls r s =
     bindE (py_index (sendcounts (calls ! s)) (int r))
       (\<lambda>c. bindE (py_index (sdispls (calls ! s)) (int r))
          (\<lambda>d. slice (sendbuf (calls ! s)) d c))"

fun receive_all ::
  "'a alltoallv_args list \<Rightarrow> nat \<Rightarrow> nat list \<Rightarrow> 'a option list \<Rightarrow> error + 'a option list" where
  "receive_all calls r [] buf = Inr buf"
| "receive_all calls r (s # ss) buf =
     bindE (sent_segment calls r s)
       (\<lambda>seg. bindE (py_index (recvcounts (calls ! r)) (int s))
          (\<lambda>c. bindE (py_index (rdispls (calls ! r)) (int s))
             (\<lambda>d. if c \<noteq> int (length seg) then Inl ProtocolViolation
                  else bindE (write_at buf d seg) (\<lambda>buf'. receive_all calls r ss buf'))))"

definition mpi_alltoallv :: "'a alltoallv_args list \<Rightarrow> error + 'a option list list" where
  "mpi_alltoallv calls =
     mapE (\<lambda>r. receive_all calls r [0..<length calls] (recvbuf (calls ! r)))
       [0..<length calls]"

text \<open>
  Modelled from the spec: \<open>hpat.timsort.alloc_arr_tup\<close> and
  \<open>hpat.distributed_api.alltoallv_tup\<close> are missing.  Section 4.4: every data column gets
  a fresh buffer of \<open>n_out\<close> cells and is exchanged on its own with the counts and
  displacements it is handed.  All workers run the same program, so they hold the same
  number of columns; column \<open>c\<close> of every worker takes part in exchange \<open>c\<close>.
\<close>

definition alloc_arr_tup :: "int \<Rightarrow> 'v list list \<Rightarrow> error + 'v option list list" where
  "alloc_arr_tup n data =
     (if n < 0 then Inl ValueError else Inr (map (\<lambda>col. replicate (nat n) None) data))"

definition alltoallv_tup ::
  "'v list list list \<Rightarrow> 'v option list list list \<Rightarrow> int list list \<Rightarrow> int list list
     \<Rightarrow> int list list \<Rightarrow> int list list \<Rightarrow> error + 'v option list list list" where
  "alltoallv_tup datas out_datas send_countss recv_countss send_disps recv_disps =
     (let n_pes = length datas;
          n_cols = (case datas of [] \<Rightarrow> 0 | data # _ \<Rightarrow> length data)
      in if \<not> list_all (\<lambda>data. length data = n_cols) datas then Inl ProtocolViolation
         else bindE
           (mapE (\<lambda>c. mpi_alltoallv
                         (map (\<lambda>r. \<lparr>sendbuf = datas ! r ! c, recvbuf = out_datas ! r ! c,
                                     sendcounts = send_countss ! r,
                                     recvcounts = recv_countss ! r,
                                     sdispls = send_disps ! r,
                                     rdispls = recv_disps ! r\<rparr>)
                              [0..<n_pes]))
                 [0..<n_cols])
           (\<lambda>by_col. Inr (map (\<lambda>r. map (\<lambda>col. col ! r) by_col) [0..<n_pes])))"

subsection \<open>The collectives a run calls\<close>

datatype collective = Dist_reduce | Gatherv | Bcast | Alltoall | Alltoallv | Alltoallv_tup

type_synonym 'a traced = "collective list \<times> (error + 'a)"

definition bindT :: "'a traced \<Rightarrow> ('a \<Rightarrow> 'b traced) \<Rightarrow> 'b traced" where
  "bindT m f =
     (case snd m of
        Inl e \<Rightarrow> (fst m, Inl e)
      | Inr x \<Rightarrow> (fst m @ fst (f x), snd (f x)))"

definition collective_call :: "collective \<Rightarrow> error + 'a \<Rightarrow> 'a traced" where
  "collective_call c r = ([c], r)"

definition local_step :: "error + 'a \<Rightarrow> 'a traced" where
  "local_step r = ([], r)"

subsection \<open>Finishing the metadata and the exchange (lines 378 to 403)\<close>

text \<open>
  \<open>finalize_impl\<close>, after its \<open>alltoall\<close> has filled \<open>recv_counts\<close> with \<open>recvd\<close>.
  \<open>recv_counts.sum()\<close> adds in 64 bits; \<open>np.empty\<close> raises on a negative length.
\<close>

definition finalize_impl :: "'k list \<Rightarrow> 'k ShuffleMeta \<Rightarrow> int list \<Rightarrow> error + 'k ShuffleMeta" where
  "finalize_impl arr shuffle_meta recvd =
     (let m = shuffle_meta\<lparr>recv_counts := recvd\<rparr>;
          n = sum_list (recv_counts m)
      in if n < 0 then Inl ValueError
         else Inr (m\<lparr>n_out := n,
                     out_arr := replicate (nat n) None,
                     send_disp := calc_disp (send_counts m),
                     recv_disp := calc_disp (recv_counts m)\<rparr>))"

definition finalize_shuffle_meta ::
  "'k list list \<Rightarrow> 'k ShuffleMeta list \<Rightarrow> 'k ShuffleMeta list traced" where
  "finalize_shuffle_meta arrs metas =
     bindT (collective_call Alltoall (alltoall (map send_counts metas)))
       (\<lambda>recvd. local_step
          (mapE (\<lambda>r. finalize_impl (arrs ! r) (metas ! r) (recvd ! r)) [0..<length metas]))"

text \<open>\<open>a2av_impl\<close>: the key arrays are exchanged into the \<open>out_arr\<close> of the metadata.\<close>

definition alltoallv :: "'k list list \<Rightarrow> 'k ShuffleMeta list \<Rightarrow> 'k ShuffleMeta list traced" where
  "alltoallv arrs metas =
     bindT (collective_call Alltoallv
              (mpi_alltoallv
                 (map (\<lambda>r. \<lparr>sendbuf = arrs ! r, recvbuf = out_arr (metas ! r),
                             sendcounts = send_counts (metas ! r),
                             recvcounts = recv_counts (metas ! r),
                             sdispls = send_disp (metas ! r),
                             rdispls = recv_disp (metas ! r)\<rparr>)
                      [0..<length metas])))
       (\<lambda>outs. local_step (Inr (map (\<lambda>r. (metas ! r)\<lparr>out_arr := outs ! r\<rparr>) [0..<length metas])))"

text \<open>Reading a received buffer: a cell that was never written holds no value.\<close>

definition read_all :: "'a option list \<Rightarrow> error + 'a list" where
  "read_all buf = mapE (\<lambda>cell. case cell of None \<Rightarrow> Inl UninitialisedRead | Some x \<Rightarrow> Inr x) buf"

subsection \<open>\<open>parallel_sort\<close> (lines 279 to 327)\<close>

text \<open>
  The whole function over the cluster; \<open>g my_rank\<close> is the entropy source of worker
  \<open>my_rank\<close>, \<open>mem\<close> the memory around the root's sample array.  A table is a key
  array with its tuple of data columns.
\<close>

type_synonym ('k, 'v) table = "'k list \<times> 'v list list"

definition parallel_sort ::
  "(int \<Rightarrow> 'k) \<Rightarrow> (nat \<Rightarrow> nat \<Rightarrow> nat) \<Rightarrow> ('k::linorder, 'v) table list
     \<Rightarrow> ('k, 'v) table list traced" where
  "parallel_sort mem g cluster =
     (let key_arrs = map fst cluster;
          datas = map snd cluster;
          n_pes = length cluster
      in
      bindT (collective_call Dist_reduce (Inr (dist_reduce_sum (map length key_arrs))))
       (\<lambda>n_total.
      bindT (local_step
               (mapE (\<lambda>my_rank. sampler (g my_rank) n_pes n_total (key_arrs ! my_rank))
                  [0..<n_pes]))
       (\<lambda>samples.
      bindT (collective_call Gatherv (Inr (gatherv samples)))
       (\<lambda>all_samples.
      bindT (local_step (root_bounds mem n_pes all_samples))
       (\<lambda>root_value.
      bindT (collective_call Bcast (Inr (bcast n_pes root_value)))
       (\<lambda>bounds.
      bindT (local_step
               (mapE (\<lambda>my_rank. route n_pes (key_arrs ! my_rank) (bounds ! my_rank))
                  [0..<n_pes]))
       (\<lambda>routed.
      bindT (finalize_shuffle_meta key_arrs (map snd routed))
       (\<lambda>metas.
      bindT (alltoallv key_arrs metas)
       (\<lambda>shuffled.
      bindT (local_step
               (mapE (\<lambda>my_rank. alloc_arr_tup (n_out (shuffled ! my_rank)) (datas ! my_rank))
                  [0..<n_pes]))
       (\<lambda>out_datas.
      bindT (collective_call Alltoallv_tup
               (alltoallv_tup datas out_datas
                  (map send_counts shuffled) (map recv_counts shuffled)
                  (map send_disp shuffled) (map recv_disp shuffled)))
       (\<lambda>received.
      local_step
        (mapE (\<lambda>my_rank.
                 bindE (read_all (out_arr (shuffled ! my_rank)))
                   (\<lambda>out. bindE (mapE read_all (received ! my_rank))
                      (\<lambda>out_data. Inr (out, out_data))))
           [0..<n_pes]))))))))))))"

subsection \<open>The sort node and \<open>sort_distributed_run\<close> (lines 24 to 29 and 172 to 272)\<close>

text \<open>
  Modelled from the spec: the enumeration \<open>Distribution\<close> of \<open>hpat.distributed_analysis\<close>
  is missing.  Section 3 names three classifications: replicated, variably partitioned and
  fully partitioned, the replicated one the weakest.  Only the order of the values matters.
\<close>

datatype Distribution = REP | OneD_Var | OneD

fun dist_value :: "Distribution \<Rightarrow> nat" where
  "dist_value REP = 1"
| "dist_value OneD_Var = 2"
| "dist_value OneD = 3"

text \<open>
  The class \<open>Sort\<close>; its source location \<open>loc\<close> plays no part.  \<open>df_vars\<close> maps column
  names to variables, \<open>array_dists\<close> maps variable names to classifications; a variable
  that \<open>array_dists\<close> lacks raises \<open>KeyError\<close>.
\<close>

record Sort =
  sort_df_in :: string
  sort_key_arr :: string
  sort_df_vars :: "(string \<times> string) list"

text \<open>
  The three blocks of nodes the function can emit: the body of \<open>sort_impl\<close>, the tuple of
  the data variables, and the body of \<open>par_sort_impl\<close>.
\<close>

datatype node = Sort_impl | Tup_impl | Par_sort_impl

definition sort_distributed_run ::
  "Sort \<Rightarrow> (string \<rightharpoonup> Distribution) \<Rightarrow> error + node list" where
  "sort_distributed_run sort_node array_dists =
     (let data_vars = map snd (sort_df_vars sort_node)
      in case those (map array_dists (sort_key_arr sort_node # data_vars)) of
           None \<Rightarrow> Inl KeyError
         | Some dists \<Rightarrow>
             (let parallel =
                    fold (\<lambda>d parallel. if d \<noteq> OneD \<and> d \<noteq> OneD_Var then False else parallel)
                      dists True;
                  nodes = [Sort_impl]
              in if \<not> parallel then Inr nodes
                 else Inr (nodes @ [Tup_impl] @ [Par_sort_impl])))"

text \<open>
  \<open>sort_distributed_analysis\<close> (lines 63 to 75): every array of the node gets the least
  of their classifications.
\<close>

definition min_dist :: "Distribution \<Rightarrow> Distribution \<Rightarrow> Distribution" where
  "min_dist a b = (if dist_value b < dist_value a then b else a)"

definition sort_distributed_analysis ::
  "Sort \<Rightarrow> (string \<rightharpoonup> Distribution) \<Rightarrow> error + (string \<rightharpoonup> Distribution)" where
  "sort_distributed_analysis sort_node array_dists =
     (let data_vars = map snd (sort_df_vars sort_node)
      in case array_dists (sort_key_arr sort_node) of
           None \<Rightarrow> Inl KeyError
         | Some key_dist \<Rightarrow>
             (case those (map array_dists data_vars) of
                None \<Rightarrow> Inl KeyError
              | Some col_dists \<Rightarrow>
                  (let in_dist = fold (\<lambda>d in_dist. min_dist in_dist d) col_dists key_dist
                   in Inr (fold (\<lambda>v dists'. dists'(v \<mapsto> in_dist))
                             (data_vars @ [sort_key_arr sort_node]) array_dists))))"

text \<open>
  What the emitted blocks do when they run.  \<open>sort_impl\<close> sorts the worker's own rows
  from \<open>0\<close> to \<open>len(key_arr)\<close> and calls no collective; the tuple block moves no data;
  \<open>par_sort_impl\<close> calls \<open>parallel_sort\<close> and sorts what the worker received.
\<close>

definition sort_impl :: "('k::linorder, 'v) table \<Rightarrow> ('k, 'v) table" where
  "sort_impl t = (case t of (key_arr, data) \<Rightarrow> timsort_sort key_arr 0 (length key_arr) data)"

definition par_sort_impl ::
  "(int \<Rightarrow> 'k) \<Rightarrow> (nat \<Rightarrow> nat \<Rightarrow> nat) \<Rightarrow> ('k::linorder, 'v) table list
     \<Rightarrow> ('k, 'v) table list traced" where
  "par_sort_impl mem g cluster =
     bindT (parallel_sort mem g cluster)
       (\<lambda>outs. local_step
          (Inr (map (\<lambda>t. case t of (out, out_data) \<Rightarrow> timsort_sort out 0 (length out) out_data)
                    outs)))"

fun run_node ::
  "(int \<Rightarrow> 'k) \<Rightarrow> (nat \<Rightarrow> nat \<Rightarrow> nat) \<Rightarrow> node \<Rightarrow> ('k::linorder, 'v) table list
     \<Rightarrow> ('k, 'v) table list traced" where
  "run_node mem g Sort_impl cluster = local_step (Inr (map sort_impl cluster))"
| "run_node mem g Tup_impl cluster = local_step (Inr cluster)"
| "run_node mem g Par_sort_impl cluster = par_sort_impl mem g cluster"

fun run_nodes ::
  "(int \<Rightarrow> 'k) \<Rightarrow> (nat \<Rightarrow> nat \<Rightarrow> nat) \<Rightarrow> node list \<Rightarrow> ('k::linorder, 'v) table list
     \<Rightarrow> ('k, 'v) table list traced" where
  "run_nodes mem g [] cluster = local_step (Inr cluster)"
| "run_nodes mem g (n # ns) cluster = bindT (run_node mem g n cluster) (run_nodes mem g ns)"

text \<open>The sort call on partitioned arrays: the three blocks in the order they are emitted.\<close>

definition distributed_sort ::
  "(int \<Rightarrow> 'k) \<Rightarrow> (nat \<Rightarrow> nat \<Rightarrow> nat) \<Rightarrow> ('k::linorder, 'v) table list
     \<Rightarrow> error + ('k, 'v) table list" where
  "distributed_sort mem g cluster =
     snd (run_nodes mem g [Sort_impl, Tup_impl, Par_sort_impl] cluster)"

text \<open>The rows of a table: each key with the values of the data columns beside it.\<close>

definition rows_of :: "('k, 'v) table \<Rightarrow> ('k \<times> 'v list) list" where
  "rows_of t = map (\<lambda>i. (fst t ! i, map (\<lambda>col. col ! i) (snd t))) [0..<length (fst t)]"

subsection \<open>Auxiliary functions for the proofs\<close>

text \<open>
  The functions below are not in the source.  \<open>cut_index\<close> names the index the root
  reads for cut \<open>i\<close>; \<open>scan\<close> is the trace of \<open>node_id\<close> over the routing loop when no
  read fails; \<open>bump\<close> is the store of \<open>update_shuffle_meta\<close> on the counts alone;
  \<open>common_dist\<close> is the least classification of the key array and the columns, as
  \<open>sort_distributed_analysis\<close> folds it.
\<close>

definition cut_index :: "nat \<Rightarrow> nat \<Rightarrow> nat \<Rightarrow> int" where
  "cut_index n_samples n_pes i =
     min ((int i + 1) * \<lceil>f64_div (f64_of_int (int n_samples)) (f64_of_int (int n_pes))\<rceil>)
         (int n_samples - 1)"

fun scan :: "nat \<Rightarrow> ('k::linorder) list \<Rightarrow> nat \<Rightarrow> 'k list \<Rightarrow> nat list" where
  "scan n_pes bounds node_id [] = []"
| "scan n_pes bounds node_id (key # keys) =
     (let node_id' = (if node_id < n_pes - 1 \<and> bounds ! node_id \<le> key then node_id + 1 else node_id)
      in node_id' # scan n_pes bounds node_id' keys)"

definition bump :: "nat \<Rightarrow> int list \<Rightarrow> int list" where
  "bump d counts = counts[d := int32 (counts ! d + 1)]"

definition common_dist :: "Distribution \<Rightarrow> Distribution list \<Rightarrow> Distribution" where
  "common_dist key_dist col_dists = fold (\<lambda>d in_dist. min_dist in_dist d) col_dists key_dist"

text \<open>
  The sampler's count as section 4.1 of the specification words it, computed exactly:
  \<open>sampleSize = min(20 * workerCount, 1_000_000)\<close>,
  \<open>fraction = min(sampleSize / max(globalTotalRows, 1), 1.0)\<close> and the count
  \<open>min(ceil(fraction * localRows), localRows)\<close>.
\<close>

definition spec_sample_count :: "nat \<Rightarrow> nat \<Rightarrow> nat \<Rightarrow> int" where
  "spec_sample_count workerCount globalTotalRows localRows =
     (let sampleSize = min (20 * int workerCount) 1000000;
          fraction = min (real_of_int sampleSize / real_of_int (max (int globalTotalRows) 1)) 1
      in min \<lceil>fraction * real localRows\<rceil> (int localRows))"

text \<open>
  The exchange in closed form.  \<open>cm ! s ! r\<close> is the number of rows worker \<open>s\<close> sends
  to worker \<open>r\<close>; \<open>segment_of\<close> is the slice \<open>s\<close> sends to \<open>r\<close> when the displacements
  are the prefix sums of the counts, \<open>exchanged\<close> what \<open>r\<close> then holds;
  \<open>planned_call\<close> and \<open>final_meta\<close> are the arguments and the metadata with such counts;
  \<open>wf_counts\<close> says that every worker's counts add up to its row count and that no sum
  reaches \<open>2^31\<close>.  \<open>aligned\<close> is the invariant of the data model: a table has
  \<open>n_cols\<close> columns, each as long as the key array.  \<open>samples_of\<close>, \<open>all_samples_of\<close>
  and \<open>count_matrix\<close> name what the sampler and the router compute;
  \<open>shuffled_tables\<close> is what \<open>parallel_sort\<close> returns with them; \<open>perm_of\<close> is the
  order the local sort reads the rows in.  \<open>tags\<close> gives every row the pair of its
  worker and its index, and \<open>key_at\<close>, \<open>value_at\<close>, \<open>row_at\<close> read the row a tag names.
\<close>

definition segment_of :: "nat list list \<Rightarrow> 'a list list \<Rightarrow> nat \<Rightarrow> nat \<Rightarrow> 'a list" where
  "segment_of cm bufs r s = take (cm ! s ! r) (drop (sum_list (take r (cm ! s))) (bufs ! s))"

definition exchanged :: "nat list list \<Rightarrow> 'a list list \<Rightarrow> nat \<Rightarrow> 'a list" where
  "exchanged cm bufs r = concat (map (segment_of cm bufs r) [0..<length cm])"

definition planned_call :: "nat list list \<Rightarrow> 'a list list \<Rightarrow> nat \<Rightarrow> 'a alltoallv_args" where
  "planned_call cm bufs r =
     \<lparr>sendbuf = bufs ! r,
      recvbuf = replicate (sum_list (map (\<lambda>s. cm ! s ! r) [0..<length cm])) None,
      sendcounts = map int (cm ! r),
      recvcounts = map (\<lambda>s. int (cm ! s ! r)) [0..<length cm],
      sdispls = map (\<lambda>i. int (sum_list (take i (cm ! r)))) [0..<length cm],
      rdispls = map (\<lambda>s. int (sum_list (map (\<lambda>s'. cm ! s' ! r) [0..<s]))) [0..<length cm]\<rparr>"

definition final_meta :: "nat list list \<Rightarrow> nat \<Rightarrow> 'k ShuffleMeta" where
  "final_meta cm r =
     \<lparr>send_counts = map int (cm ! r),
      recv_counts = map (\<lambda>s. int (cm ! s ! r)) [0..<length cm],
      out_arr = replicate (sum_list (map (\<lambda>s. cm ! s ! r) [0..<length cm])) None,
      n_out = int (sum_list (map (\<lambda>s. cm ! s ! r) [0..<length cm])),
      send_disp = map (\<lambda>i. int (sum_list (take i (cm ! r)))) [0..<length cm],
      recv_disp = map (\<lambda>s. int (sum_list (map (\<lambda>s'. cm ! s' ! r) [0..<s]))) [0..<length cm],
      send_counts_char = None,
      recv_counts_char = None,
      send_arr_lens = None,
      send_arr_chars = None\<rparr>"

definition wf_counts :: "nat list list \<Rightarrow> nat list \<Rightarrow> bool" where
  "wf_counts cm n_locals =
     (length n_locals = length cm \<and>
      list_all (\<lambda>s. length (cm ! s) = length cm \<and> sum_list (cm ! s) = n_locals ! s) [0..<length cm] \<and>
      sum_list n_locals < 2147483648)"

definition aligned :: "nat \<Rightarrow> ('k, 'v) table \<Rightarrow> bool" where
  "aligned n_cols t =
     (length (snd t) = n_cols \<and> list_all (\<lambda>col. length col = length (fst t)) (snd t))"

definition column :: "('k, 'v) table list \<Rightarrow> nat \<Rightarrow> 'v list list" where
  "column cluster c = map (\<lambda>t. snd t ! c) cluster"

definition samples_of :: "(nat \<Rightarrow> nat) \<Rightarrow> nat \<Rightarrow> nat \<Rightarrow> 'k list \<Rightarrow> 'k list" where
  "samples_of g n_pes n_total key_arr =
     map (\<lambda>j. key_arr ! (g j mod length key_arr))
       [0..<nat (n_loc_samples n_pes n_total (length key_arr))]"

definition all_samples_of :: "(nat \<Rightarrow> nat \<Rightarrow> nat) \<Rightarrow> 'k list list \<Rightarrow> 'k list" where
  "all_samples_of g key_arrs =
     concat (map (\<lambda>r. samples_of (g r) (length key_arrs) (sum_list (map length key_arrs)) (key_arrs ! r))
               [0..<length key_arrs])"

definition count_matrix :: "nat \<Rightarrow> ('k::linorder) list \<Rightarrow> 'k list list \<Rightarrow> nat list list" where
  "count_matrix n_pes bounds key_arrs =
     map (\<lambda>key_arr. map (count_list (scan n_pes bounds 0 key_arr)) [0..<n_pes]) key_arrs"

definition shuffled_tables :: "nat list list \<Rightarrow> nat \<Rightarrow> ('k, 'v) table list \<Rightarrow> ('k, 'v) table list" where
  "shuffled_tables cm n_cols cluster =
     map (\<lambda>r. (exchanged cm (map fst cluster) r,
               map (\<lambda>c. exchanged cm (column cluster c) r) [0..<n_cols]))
       [0..<length cluster]"

definition perm_of :: "('k::linorder) list \<Rightarrow> nat list" where
  "perm_of key_arr = sort_key (\<lambda>i. key_arr ! i) [0..<length key_arr]"

definition tags :: "('k, 'v) table list \<Rightarrow> (nat \<times> nat) list list" where
  "tags cluster = map (\<lambda>s. map (Pair s) [0..<length (fst (cluster ! s))]) [0..<length cluster]"

definition key_at :: "('k, 'v) table list \<Rightarrow> nat \<times> nat \<Rightarrow> 'k" where
  "key_at cluster p = fst (cluster ! fst p) ! snd p"

definition value_at :: "('k, 'v) table list \<Rightarrow> nat \<Rightarrow> nat \<times> nat \<Rightarrow> 'v" where
  "value_at cluster c p = snd (cluster ! fst p) ! c ! snd p"

definition row_at :: "('k, 'v) table list \<Rightarrow> nat \<times> nat \<Rightarrow> 'k \<times> 'v list" where
  "row_at cluster p =
     (fst (cluster ! fst p) ! snd p, map (\<lambda>col. col ! snd p) (snd (cluster ! fst p)))"

text \<open>
  \<open>mapR\<close> maps over a result; \<open>map_args\<close> maps the two buffers of an exchange and keeps
  its counts and displacements.  \<open>shuffle_plan\<close> is \<open>parallel_sort\<close> up to the finished
  metadata, which depends on the key arrays alone, and \<open>payload\<close> is the rest of it.
  \<open>tag_calls\<close> are the arguments of an exchange of the row tags with the counts and
  displacements of the given metadata.
\<close>

definition map_args :: "('a \<Rightarrow> 'b) \<Rightarrow> 'a alltoallv_args \<Rightarrow> 'b alltoallv_args" where
  "map_args f a =
     \<lparr>sendbuf = map f (sendbuf a), recvbuf = map (map_option f) (recvbuf a),
      sendcounts = sendcounts a, recvcounts = recvcounts a,
      sdispls = sdispls a, rdispls = rdispls a\<rparr>"

definition mapR :: "('a \<Rightarrow> 'b) \<Rightarrow> error + 'a \<Rightarrow> error + 'b" where
  "mapR h m = (case m of Inl e \<Rightarrow> Inl e | Inr x \<Rightarrow> Inr (h x))"

definition shuffle_plan ::
  "(int \<Rightarrow> 'k) \<Rightarrow> (nat \<Rightarrow> nat \<Rightarrow> nat) \<Rightarrow> ('k::linorder) list list
     \<Rightarrow> error + 'k ShuffleMeta list" where
  "shuffle_plan mem g key_arrs =
     bindE (mapE (\<lambda>my_rank. sampler (g my_rank) (length key_arrs)
                     (dist_reduce_sum (map length key_arrs)) (key_arrs ! my_rank))
              [0..<length key_arrs])
       (\<lambda>samples. bindE (root_bounds mem (length key_arrs) (gatherv samples))
          (\<lambda>root_value.
             bindE (mapE (\<lambda>my_rank. route (length key_arrs) (key_arrs ! my_rank)
                                     (bcast (length key_arrs) root_value ! my_rank))
                      [0..<length key_arrs])
               (\<lambda>routed. snd (finalize_shuffle_meta key_arrs (map snd routed)))))"

definition payload ::
  "'k list list \<Rightarrow> 'v list list list \<Rightarrow> 'k ShuffleMeta list \<Rightarrow> error + ('k, 'v) table list" where
  "payload key_arrs datas metas =
     bindE (snd (alltoallv key_arrs metas))
       (\<lambda>shuffled.
          bindE (mapE (\<lambda>my_rank. alloc_arr_tup (n_out (shuffled ! my_rank)) (datas ! my_rank))
                   [0..<length key_arrs])
            (\<lambda>out_datas.
               bindE (alltoallv_tup datas out_datas
                        (map send_counts shuffled) (map recv_counts shuffled)
                        (map send_disp shuffled) (map recv_disp shuffled))
                 (\<lambda>received.
                    mapE (\<lambda>my_rank.
                            bindE (read_all (out_arr (shuffled ! my_rank)))
                              (\<lambda>out. bindE (mapE read_all (received ! my_rank))
                                 (\<lambda>out_data. Inr (out, out_data))))
                      [0..<length key_arrs])))"

definition tag_calls :: "('k, 'v) table list \<Rightarrow> 'k ShuffleMeta list \<Rightarrow> (nat \<times> nat) alltoallv_args list" where
  "tag_calls cluster metas =
     map (\<lambda>r. \<lparr>sendbuf = tags cluster ! r,
                 recvbuf = replicate (nat (n_out (metas ! r))) None,
                 sendcounts = send_counts (metas ! r),
                 recvcounts = recv_counts (metas ! r),
                 sdispls = send_disp (metas ! r),
                 rdispls = recv_disp (metas ! r)\<rparr>)
       [0..<length cluster]"

section \<open>Properties\<close>

subsection \<open>Rounding to a double\<close>

lemma round_even_of_int [simp]: "round_even (of_int n) = n"
  by (simp add: round_even_def)

lemma round_even_lower: "x - 1 / 2 \<le> of_int (round_even x)"
  unfolding round_even_def Let_def by (auto simp: not_less) linarith+

lemma round_even_upper: "of_int (round_even x) \<le> x + 1 / 2"
  unfolding round_even_def Let_def by (auto simp: not_less) linarith+

lemma round_even_floor_le: "\<lfloor>x\<rfloor> \<le> round_even x"
  by (simp add: round_even_def Let_def)

lemma round_even_le_floor: "round_even x \<le> \<lfloor>x\<rfloor> + 1"
  by (simp add: round_even_def Let_def)

lemma round_even_mono: "x \<le> y \<Longrightarrow> round_even x \<le> round_even y"
proof -
  assume le: "x \<le> y"
  show ?thesis
  proof (cases "\<lfloor>x\<rfloor> = \<lfloor>y\<rfloor>")
    case True
    with le show ?thesis by (auto simp: round_even_def Let_def)
  next
    case False
    then have "\<lfloor>x\<rfloor> < \<lfloor>y\<rfloor>" using floor_mono [OF le] by simp
    then have "round_even x \<le> \<lfloor>y\<rfloor>" using round_even_le_floor [of x] by simp
    then show ?thesis using round_even_floor_le [of y] by simp
  qed
qed

lemma round_even_ge: "of_int m \<le> x \<Longrightarrow> m \<le> round_even x"
  using round_even_mono [of "of_int m" x] by simp

lemma round_even_le: "x \<le> of_int m \<Longrightarrow> round_even x \<le> m"
  using round_even_mono [of x "of_int m"] by simp

lemma binade_bounds:
  assumes "0 < x"
  shows "2 powi binade x \<le> x" and "x < 2 powi (binade x + 1)"
proof -
  show "2 powi binade x \<le> x"
  proof (cases "1 \<le> x")
    case True
    then have p: "0 < \<lfloor>x\<rfloor>" by simp
    from bitlen_bounds [OF p] have "(2::int) ^ nat (bitlen \<lfloor>x\<rfloor> - 1) \<le> \<lfloor>x\<rfloor>" by simp
    then have "real_of_int (2 ^ nat (bitlen \<lfloor>x\<rfloor> - 1)) \<le> real_of_int \<lfloor>x\<rfloor>" by linarith
    then have "(2::real) ^ nat (bitlen \<lfloor>x\<rfloor> - 1) \<le> x" by (simp add: le_floor_iff)
    moreover have "0 \<le> bitlen \<lfloor>x\<rfloor> - 1" using p by (simp add: bitlen_alt_def)
    ultimately show ?thesis using True by (simp add: binade_def power_int_def)
  next
    case False
    let ?m = "\<lceil>1 / x\<rceil> - 1"
    let ?k = "bitlen ?m"
    have "1 < 1 / x" using False assms by simp
    then have m: "0 < ?m" by (simp add: less_ceiling_iff)
    from bitlen_bounds [OF m] have "?m < 2 ^ nat ?k" by simp
    then have "\<lceil>1 / x\<rceil> \<le> 2 ^ nat ?k" by simp
    then have "1 / x \<le> 2 ^ nat ?k" by (simp add: ceiling_le_iff)
    then have "1 / 2 ^ nat ?k \<le> x" using assms by (simp add: field_simps)
    moreover have "(2::real) powi (- ?k) = 1 / 2 ^ nat ?k"
      using bitlen_nonneg [of ?m] by (simp add: power_int_minus_divide power_int_nonneg_exp)
    ultimately show ?thesis using False
      by (simp add: binade_def)
  qed
  show "x < 2 powi (binade x + 1)"
  proof (cases "1 \<le> x")
    case True
    then have p: "0 < \<lfloor>x\<rfloor>" by simp
    from bitlen_bounds [OF p] have "\<lfloor>x\<rfloor> < 2 ^ nat (bitlen \<lfloor>x\<rfloor>)" by simp
    then have "\<lfloor>x\<rfloor> + 1 \<le> 2 ^ nat (bitlen \<lfloor>x\<rfloor>)" by simp
    then have "real_of_int (\<lfloor>x\<rfloor> + 1) \<le> real_of_int (2 ^ nat (bitlen \<lfloor>x\<rfloor>))" by linarith
    then have "x < 2 ^ nat (bitlen \<lfloor>x\<rfloor>)" by simp linarith
    moreover have "0 \<le> bitlen \<lfloor>x\<rfloor>" by (rule bitlen_nonneg)
    ultimately show ?thesis using True by (simp add: binade_def power_int_def)
  next
    case False
    let ?m = "\<lceil>1 / x\<rceil> - 1"
    let ?k = "bitlen ?m"
    have "1 < 1 / x" using False assms by simp
    then have m: "0 < ?m" by (simp add: less_ceiling_iff)
    then have k: "1 \<le> ?k" by (simp add: bitlen_alt_def)
    from bitlen_bounds [OF m] have "2 ^ nat (?k - 1) \<le> ?m" by simp
    then have "real_of_int (2 ^ nat (?k - 1)) \<le> real_of_int ?m" by linarith
    moreover have "real_of_int ?m < 1 / x" by linarith
    ultimately have "2 ^ nat (?k - 1) < 1 / x" by simp
    then have "x < 1 / 2 ^ nat (?k - 1)" using assms by (simp add: field_simps)
    moreover have "(2::real) powi (- ?k + 1) = 1 / 2 ^ nat (?k - 1)"
    proof -
      have "(2::real) powi (- ?k + 1) = 2 powi (- (?k - 1))" by simp
      also have "\<dots> = 1 / 2 powi (?k - 1)" by (rule power_int_minus_divide)
      also have "\<dots> = 1 / 2 ^ nat (?k - 1)" using k by (simp add: power_int_nonneg_exp)
      finally show ?thesis .
    qed
    ultimately show ?thesis using False
      by (simp add: binade_def)
  qed
qed

lemma powi2_less_imp: "(2::real) powi a < 2 powi b \<Longrightarrow> a < b"
proof (rule ccontr)
  assume l: "(2::real) powi a < 2 powi b" and "\<not> a < b"
  then have "b \<le> a" by simp
  then have "(2::real) powi b \<le> 2 powi a" by (rule power_int_increasing) simp
  with l show False by simp
qed

lemma binade_eqI:
  assumes "2 powi e \<le> x" and "x < 2 powi (e + 1)"
  shows "binade x = e"
proof -
  have x: "0 < x" using assms(1) by (rule less_le_trans [rotated]) simp
  have "(2::real) powi e < 2 powi (binade x + 1)"
    using assms(1) binade_bounds(2) [OF x] by simp
  then have a: "e < binade x + 1" by (rule powi2_less_imp)
  have "(2::real) powi binade x < 2 powi (e + 1)"
    using assms(2) binade_bounds(1) [OF x] by simp
  then have "binade x < e + 1" by (rule powi2_less_imp)
  with a show ?thesis by simp
qed

lemma binade_mono:
  assumes "0 < x" and "x \<le> y"
  shows "binade x \<le> binade y"
proof -
  have y: "0 < y" using assms by simp
  have "(2::real) powi binade x < 2 powi (binade y + 1)"
    using binade_bounds(1) [OF assms(1)] binade_bounds(2) [OF y] assms(2) by simp
  then have "binade x < binade y + 1" by (rule powi2_less_imp)
  then show ?thesis by simp
qed

lemma f64_pos_eq:
  "0 < x \<Longrightarrow> f64 x = of_int (round_even (x / 2 powi (binade x - 52))) * 2 powi (binade x - 52)"
  by (simp add: f64_def)

lemma f64_zero [simp]: "f64 0 = 0"
  by (simp add: f64_def)

lemma scaled_bounds:
  assumes "0 < x"
  shows "2 ^ 52 \<le> x / 2 powi (binade x - 52)" and "x / 2 powi (binade x - 52) < 2 ^ 53"
proof -
  have u: "(0::real) < 2 powi (binade x - 52)" by simp
  have e1: "(2::real) powi binade x = 2 ^ 52 * 2 powi (binade x - 52)"
    by (simp add: power_int_diff)
  have e2: "(2::real) powi (binade x + 1) = 2 ^ 53 * 2 powi (binade x - 52)"
    by (simp add: power_int_diff power_int_add)
  show "2 ^ 52 \<le> x / 2 powi (binade x - 52)"
    using binade_bounds(1) [OF assms] unfolding e1 by (simp add: pos_le_divide_eq [OF u])
  show "x / 2 powi (binade x - 52) < 2 ^ 53"
    using binade_bounds(2) [OF assms] unfolding e2 by (simp add: pos_divide_less_eq [OF u])
qed

lemma mantissa_bounds:
  assumes "0 < x"
  shows "2 ^ 52 \<le> round_even (x / 2 powi (binade x - 52))"
    and "round_even (x / 2 powi (binade x - 52)) \<le> 2 ^ 53"
proof -
  have "real_of_int (2 ^ 52) \<le> x / 2 powi (binade x - 52)"
    using scaled_bounds(1) [OF assms] by simp
  then show "2 ^ 52 \<le> round_even (x / 2 powi (binade x - 52))" by (rule round_even_ge)
  have "x / 2 powi (binade x - 52) \<le> real_of_int (2 ^ 53)"
    using scaled_bounds(2) [OF assms] by simp
  then show "round_even (x / 2 powi (binade x - 52)) \<le> 2 ^ 53" by (rule round_even_le)
qed

lemma f64_bracket:
  assumes "0 < x"
  shows "2 powi binade x \<le> f64 x" and "f64 x \<le> 2 powi (binade x + 1)"
proof -
  let ?u = "(2::real) powi (binade x - 52)"
  let ?m = "round_even (x / ?u)"
  have u: "0 < ?u" by simp
  have e1: "(2::real) powi binade x = 2 ^ 52 * ?u"
    by (simp add: power_int_diff)
  have e2: "(2::real) powi (binade x + 1) = 2 ^ 53 * ?u"
    by (simp add: power_int_diff power_int_add)
  have "real_of_int (2 ^ 52) \<le> real_of_int ?m" using mantissa_bounds(1) [OF assms] by linarith
  then have "2 ^ 52 * ?u \<le> real_of_int ?m * ?u" using u by (simp del: of_int_le_iff)
  then show "2 powi binade x \<le> f64 x" unfolding e1 f64_pos_eq [OF assms] .
  have "real_of_int ?m \<le> real_of_int (2 ^ 53)" using mantissa_bounds(2) [OF assms] by linarith
  then have "real_of_int ?m * ?u \<le> 2 ^ 53 * ?u" using u by (simp del: of_int_le_iff)
  then show "f64 x \<le> 2 powi (binade x + 1)" unfolding e2 f64_pos_eq [OF assms] .
qed

lemma f64_pos: "0 < x \<Longrightarrow> 0 < f64 x"
  using f64_bracket(1) [of x] by (rule_tac less_le_trans [of _ "2 powi binade x"]) simp_all

lemma f64_nonneg: "0 \<le> x \<Longrightarrow> 0 \<le> f64 x"
  using f64_pos [of x] by (cases "x = 0") simp_all

lemma f64_error:
  assumes "0 < x"
  shows "\<bar>f64 x - x\<bar> \<le> 2 powi (binade x - 53)" and "\<bar>f64 x - x\<bar> \<le> x / 2 ^ 53"
proof -
  let ?u = "(2::real) powi (binade x - 52)"
  let ?m = "round_even (x / ?u)"
  have u: "0 < ?u" by simp
  have "\<bar>real_of_int ?m - x / ?u\<bar> \<le> 1 / 2"
    using round_even_lower [of "x / ?u"] round_even_upper [of "x / ?u"] by linarith
  then have "\<bar>real_of_int ?m - x / ?u\<bar> * ?u \<le> 1 / 2 * ?u"
    using u by (intro mult_right_mono) simp_all
  moreover have "\<bar>real_of_int ?m - x / ?u\<bar> * ?u = \<bar>real_of_int ?m * ?u - x\<bar>"
  proof -
    have "(real_of_int ?m - x / ?u) * ?u = real_of_int ?m * ?u - x"
      by (simp add: left_diff_distrib)
    then have "\<bar>real_of_int ?m * ?u - x\<bar> = \<bar>(real_of_int ?m - x / ?u) * ?u\<bar>" by simp
    also have "\<dots> = \<bar>real_of_int ?m - x / ?u\<bar> * \<bar>?u\<bar>" by (rule abs_mult)
    finally show ?thesis by simp
  qed
  moreover have "1 / 2 * ?u = 2 powi (binade x - 53)"
    by (simp add: power_int_diff)
  ultimately show a: "\<bar>f64 x - x\<bar> \<le> 2 powi (binade x - 53)"
    unfolding f64_pos_eq [OF assms] by simp
  have "(2::real) powi (binade x - 53) = 2 powi binade x / 2 ^ 53"
    by (simp add: power_int_diff)
  also have "\<dots> \<le> x / 2 ^ 53" using binade_bounds(1) [OF assms] by (simp add: divide_right_mono)
  finally show "\<bar>f64 x - x\<bar> \<le> x / 2 ^ 53" using a by simp
qed

lemma f64_exact:
  assumes "0 < x" and "of_int m = x / 2 powi (binade x - 52)"
  shows "f64 x = x"
proof -
  have "round_even (x / 2 powi (binade x - 52)) = m"
    unfolding assms(2) [symmetric] by (rule round_even_of_int)
  then have "f64 x = of_int m * 2 powi (binade x - 52)"
    by (simp only: f64_pos_eq [OF assms(1)])
  also have "\<dots> = x / 2 powi (binade x - 52) * 2 powi (binade x - 52)"
    by (simp only: assms(2))
  also have "\<dots> = x" by simp
  finally show ?thesis .
qed

lemma f64_of_int_exact:
  assumes "0 \<le> n" and "n \<le> 2 ^ 53"
  shows "f64 (of_int n) = of_int n"
proof (cases "n = 0")
  case True
  then show ?thesis by simp
next
  case False
  then have n: "0 < n" using assms(1) by simp
  let ?x = "real_of_int n"
  have x: "0 < ?x" using n by simp
  show ?thesis
  proof (cases "n = 2 ^ 53")
    case True
    have v: "?x = 2 ^ 53" unfolding True by simp
    have b: "binade ?x = 53" unfolding v by (rule binade_eqI) simp_all
    have "?x / 2 powi (binade ?x - 52) = 2 ^ 52" unfolding b unfolding v by simp
    then have "real_of_int (2 ^ 52) = ?x / 2 powi (binade ?x - 52)" by simp
    then show ?thesis by (rule f64_exact [OF x])
  next
    case False
    then have lt: "n < 2 ^ 53" using assms(2) by simp
    have "(2::real) powi binade ?x \<le> ?x" by (rule binade_bounds(1) [OF x])
    also have "?x < real_of_int (2 ^ 53)" using lt by linarith
    finally have "(2::real) powi binade ?x < 2 powi 53" by simp
    then have "binade ?x < 53" by (rule powi2_less_imp)
    then have le: "binade ?x \<le> 52" by simp
    have "(1::real) \<le> ?x" using n by simp
    then have "(2::real) powi 0 \<le> ?x" by simp
    also have "?x < 2 powi (binade ?x + 1)" by (rule binade_bounds(2) [OF x])
    finally have "0 < binade ?x + 1" by (rule powi2_less_imp)
    then have ge: "0 \<le> binade ?x" by simp
    have "?x / 2 powi (binade ?x - 52) = ?x * 2 powi (52 - binade ?x)"
      by (simp add: power_int_diff field_simps)
    also have "\<dots> = ?x * 2 ^ nat (52 - binade ?x)"
      using le by (simp add: power_int_def)
    also have "\<dots> = real_of_int (n * 2 ^ nat (52 - binade ?x))" by simp
    finally have "real_of_int (n * 2 ^ nat (52 - binade ?x)) = ?x / 2 powi (binade ?x - 52)"
      by simp
    then show ?thesis by (rule f64_exact [OF x])
  qed
qed

lemma f64_one [simp]: "f64 1 = 1"
  using f64_of_int_exact [of 1] by simp

lemma f64_mono:
  assumes "0 \<le> x" and "x \<le> y"
  shows "f64 x \<le> f64 y"
proof (cases "x = 0")
  case True
  then show ?thesis using f64_nonneg [of y] assms by simp
next
  case False
  then have x: "0 < x" using assms(1) by simp
  then have y: "0 < y" using assms(2) by simp
  show ?thesis
  proof (cases "binade x = binade y")
    case True
    let ?u = "(2::real) powi (binade y - 52)"
    have "x / ?u \<le> y / ?u" using assms(2) by (simp add: divide_right_mono)
    then have "round_even (x / ?u) \<le> round_even (y / ?u)" by (rule round_even_mono)
    then have "real_of_int (round_even (x / ?u)) \<le> real_of_int (round_even (y / ?u))" by simp
    then have "real_of_int (round_even (x / ?u)) * ?u \<le> real_of_int (round_even (y / ?u)) * ?u"
      by (intro mult_right_mono) simp_all
    then show ?thesis unfolding f64_pos_eq [OF x] f64_pos_eq [OF y] True .
  next
    case False
    then have "binade x + 1 \<le> binade y" using binade_mono [OF x assms(2)] by simp
    then have "(2::real) powi (binade x + 1) \<le> 2 powi binade y"
      by (intro power_int_increasing) simp_all
    then show ?thesis using f64_bracket(2) [OF x] f64_bracket(1) [OF y] by linarith
  qed
qed

lemma f64_le_one: "0 \<le> x \<Longrightarrow> x \<le> 1 \<Longrightarrow> f64 x \<le> 1"
  using f64_mono [of x 1] by simp

lemma f64_ge_one: "1 \<le> x \<Longrightarrow> 1 \<le> f64 x"
  using f64_mono [of 1 x] by simp

lemma ceiling_f64_div_exact:
  assumes a: "0 \<le> a" "a < 2 ^ 53" and b: "0 < b"
  shows "\<lceil>f64 (of_int a / of_int b)\<rceil> = \<lceil>real_of_int a / real_of_int b\<rceil>"
proof (cases "a = 0")
  case True
  then show ?thesis by simp
next
  case False
  then have ap: "0 < a" using a(1) by simp
  let ?q = "real_of_int a / real_of_int b"
  let ?k = "\<lceil>?q\<rceil>"
  have q: "0 < ?q" using ap b by simp
  have k1: "1 \<le> ?k" using q by (simp add: le_ceiling_iff)
  have qa: "?q \<le> real_of_int a"
  proof -
    have "1 \<le> real_of_int b" using b by simp
    then have "real_of_int a / real_of_int b \<le> real_of_int a / 1"
      using ap by (intro divide_left_mono) simp_all
    then show ?thesis by simp
  qed
  then have "?k \<le> a" by (rule ceiling_le)
  then have k53: "?k \<le> 2 ^ 53" using a(2) by linarith
  have k0: "0 \<le> ?k" using k1 by linarith
  have up: "f64 ?q \<le> of_int ?k"
  proof -
    have "f64 ?q \<le> f64 (of_int ?k)" by (rule f64_mono) (use q in simp_all)
    also have "\<dots> = of_int ?k" by (rule f64_of_int_exact [OF k0 k53])
    finally show ?thesis .
  qed
  have lo: "of_int (?k - 1) < f64 ?q"
  proof (cases "?k = 1")
    case True
    then show ?thesis using f64_pos [OF q] by simp
  next
    case False
    have "k \<noteq> 1 \<Longrightarrow> 1 \<le> k \<Longrightarrow> 1 \<le> k - 1" for k :: int by simp
    from this [OF False k1] have k2: "1 \<le> ?k - 1" .
    have qk: "of_int (?k - 1) < ?q" by linarith
    have bpos: "0 < real_of_int b" using b by simp
    have "real_of_int ((?k - 1) * b) < real_of_int a"
      using qk bpos by (simp add: pos_less_divide_eq)
    then have "(?k - 1) * b < a" by linarith
    then have "(?k - 1) * b + 1 \<le> a" by simp
    then have "real_of_int ((?k - 1) * b + 1) \<le> real_of_int a" by linarith
    then have "real_of_int ((?k - 1) * b + 1) / real_of_int b \<le> ?q"
      using bpos by (intro divide_right_mono) simp_all
    moreover have "real_of_int ((?k - 1) * b + 1) / real_of_int b
                     = real_of_int (?k - 1) + 1 / real_of_int b"
      using bpos by (simp add: add_divide_distrib)
    ultimately have gap: "real_of_int (?k - 1) + 1 / real_of_int b \<le> ?q" by simp
    have "f64 (of_int (?k - 1)) \<le> f64 ?q" by (rule f64_mono) (use k2 qk in simp_all)
    moreover have "f64 (of_int (?k - 1)) = of_int (?k - 1)"
      by (rule f64_of_int_exact) (use k2 k53 in linarith)+
    ultimately have ge: "of_int (?k - 1) \<le> f64 ?q" by simp
    have "\<bar>f64 ?q - ?q\<bar> \<le> ?q / 2 ^ 53" by (rule f64_error(2) [OF q])
    also have "\<dots> = real_of_int a / 2 ^ 53 / real_of_int b" by simp
    also have "\<dots> < 1 / real_of_int b"
    proof -
      have "real_of_int a < real_of_int (2 ^ 53)" using a(2) by linarith
      then have "real_of_int a / 2 ^ 53 < 1" by simp
      then show ?thesis using bpos by (rule divide_strict_right_mono)
    qed
    finally have "\<bar>f64 ?q - ?q\<bar> < 1 / real_of_int b" .
    with gap show ?thesis by linarith
  qed
  from lo up show ?thesis by (simp add: ceiling_eq_iff)
qed

lemma f64_of_int_nonneg: "0 \<le> n \<Longrightarrow> 0 \<le> f64_of_int n"
  by (simp add: f64_of_int_def f64_nonneg)

lemma f64_of_int_ge_one: "1 \<le> n \<Longrightarrow> 1 \<le> f64_of_int n"
  unfolding f64_of_int_def by (rule f64_ge_one) simp

lemma f64_of_int_id: "0 \<le> n \<Longrightarrow> n \<le> 2 ^ 53 \<Longrightarrow> f64_of_int n = of_int n"
  unfolding f64_of_int_def by (rule f64_of_int_exact)

lemma f64_div_nonneg: "0 \<le> x \<Longrightarrow> 0 \<le> y \<Longrightarrow> 0 \<le> f64_div x y"
  by (simp add: f64_div_def f64_nonneg)

lemma f64_div_pos: "0 < x \<Longrightarrow> 0 < y \<Longrightarrow> 0 < f64_div x y"
  by (simp add: f64_div_def f64_pos)

lemma f64_mul_nonneg: "0 \<le> x \<Longrightarrow> 0 \<le> y \<Longrightarrow> 0 \<le> f64_mul x y"
  by (simp add: f64_mul_def f64_nonneg)

lemma f64_mul_pos: "0 < x \<Longrightarrow> 0 < y \<Longrightarrow> 0 < f64_mul x y"
  by (simp add: f64_mul_def f64_pos)

lemma step_nonneg: "0 \<le> \<lceil>f64_div (f64_of_int (int n_samples)) (f64_of_int (int n_pes))\<rceil>"
proof -
  have "0 \<le> f64_div (f64_of_int (int n_samples)) (f64_of_int (int n_pes))"
    by (intro f64_div_nonneg f64_of_int_nonneg) simp_all
  then show ?thesis using ceiling_mono [of 0 "f64_div (f64_of_int (int n_samples)) (f64_of_int (int n_pes))"]
    by simp
qed

lemma step_of_exact:
  assumes "n_samples < 2 ^ 53" and "0 < n_pes" and "n_pes \<le> 2 ^ 53"
  shows "step_of n_samples n_pes = Inr \<lceil>real n_samples / real n_pes\<rceil>"
proof -
  have a: "f64_of_int (int n_samples) = of_int (int n_samples)"
    by (rule f64_of_int_id) (use assms(1) in simp_all)
  have "int n_pes \<le> int (2 ^ 53)" using assms(3) by (simp only: of_nat_le_iff)
  then have b: "f64_of_int (int n_pes) = of_int (int n_pes)"
    by (intro f64_of_int_id) simp_all
  have "int n_samples < int (2 ^ 53)" using assms(1) by (simp only: of_nat_less_iff)
  then have "\<lceil>f64 (of_int (int n_samples) / of_int (int n_pes))\<rceil>
          = \<lceil>real_of_int (int n_samples) / real_of_int (int n_pes)\<rceil>"
    by (intro ceiling_f64_div_exact) (use assms(2) in simp_all)
  then show ?thesis using assms(2) by (simp add: step_of_def f64_div_def a b)
qed

subsection \<open>Sequencing\<close>

lemma bindE_Inr [simp]: "bindE (Inr x) f = f x"
  by (simp add: bindE_def)

lemma bindE_Inl [simp]: "bindE (Inl e) f = Inl e"
  by (simp add: bindE_def)

lemma mapE_cong_Inr:
  "(\<And>x. x \<in> set xs \<Longrightarrow> f x = Inr (h x)) \<Longrightarrow> mapE f xs = Inr (map h xs)"
  by (induction xs) simp_all

lemma mapE_Inr_D:
  "mapE f xs = Inr ys \<Longrightarrow> length ys = length xs \<and> (\<forall>i<length xs. f (xs ! i) = Inr (ys ! i))"
proof (induction xs arbitrary: ys)
  case Nil
  then show ?case by simp
next
  case (Cons x xs)
  from Cons.prems obtain y ys' where y: "f x = Inr y" and ys': "mapE f xs = Inr ys'" and e: "ys = y # ys'"
    by (auto simp: bindE_def split: sum.splits)
  from Cons.IH[OF ys'] show ?case using y e
    by (auto simp: nth_Cons split: nat.splits)
qed

lemma mapE_map: "mapE f (map h xs) = mapE (f \<circ> h) xs"
  by (induction xs) simp_all

subsection \<open>Sampler\<close>

lemma sampleSize_nonneg: "0 \<le> sampleSize n_pes"
  by (simp add: sampleSize_def samplePointsPerPartitionHint_def MIN_SAMPLES_def)

lemma fraction_range: "0 \<le> fraction n_pes n_total \<and> fraction n_pes n_total \<le> 1"
proof -
  have "0 \<le> f64_div (f64_of_int (sampleSize n_pes)) (f64_of_int (max (int n_total) 1))"
    by (intro f64_div_nonneg f64_of_int_nonneg sampleSize_nonneg) simp
  then show ?thesis by (simp add: fraction_def)
qed

lemma n_loc_samples_range:
  "0 \<le> n_loc_samples n_pes n_total n_local \<and> n_loc_samples n_pes n_total n_local \<le> int n_local"
proof -
  have "0 \<le> f64_mul (fraction n_pes n_total) (f64_of_int (int n_local))"
    using fraction_range [of n_pes n_total] by (intro f64_mul_nonneg f64_of_int_nonneg) simp_all
  then have "0 \<le> \<lceil>f64_mul (fraction n_pes n_total) (f64_of_int (int n_local))\<rceil>"
    using ceiling_mono [of 0 "f64_mul (fraction n_pes n_total) (f64_of_int (int n_local))"] by simp
  then show ?thesis by (simp add: n_loc_samples_def)
qed

lemma fraction_pos:
  assumes "0 < n_pes"
  shows "0 < fraction n_pes n_total"
proof -
  have "1 \<le> sampleSize n_pes"
    using assms by (simp add: sampleSize_def samplePointsPerPartitionHint_def MIN_SAMPLES_def)
  then have "1 \<le> f64_of_int (sampleSize n_pes)" by (rule f64_of_int_ge_one)
  moreover have "1 \<le> f64_of_int (max (int n_total) 1)" by (rule f64_of_int_ge_one) simp
  ultimately have "0 < f64_div (f64_of_int (sampleSize n_pes)) (f64_of_int (max (int n_total) 1))"
    by (intro f64_div_pos) simp_all
  then show ?thesis by (simp add: fraction_def)
qed

lemma n_loc_samples_pos:
  assumes "0 < n_pes" and "0 < n_local"
  shows "0 < n_loc_samples n_pes n_total n_local"
proof -
  have "1 \<le> f64_of_int (int n_local)" by (rule f64_of_int_ge_one) (use assms(2) in simp)
  then have "0 < f64_mul (fraction n_pes n_total) (f64_of_int (int n_local))"
    using fraction_pos [OF assms(1), of n_total] by (intro f64_mul_pos) simp_all
  then have "0 < \<lceil>f64_mul (fraction n_pes n_total) (f64_of_int (int n_local))\<rceil>" by simp
  then show ?thesis using assms(2) by (simp add: n_loc_samples_def)
qed

lemma sampleSize_le: "sampleSize n_pes \<le> 1000000"
  by (simp add: sampleSize_def MIN_SAMPLES_def)

lemma fraction_error:
  assumes t: "int n_total \<le> 2 ^ 53"
  shows "\<bar>fraction n_pes n_total
          - min (real_of_int (sampleSize n_pes) / real_of_int (max (int n_total) 1)) 1\<bar>
         \<le> min (real_of_int (sampleSize n_pes) / real_of_int (max (int n_total) 1)) 1 / 2 ^ 53"
proof -
  let ?s = "sampleSize n_pes"
  let ?t = "max (int n_total) 1"
  let ?q = "real_of_int ?s / real_of_int ?t"
  have s: "f64_of_int ?s = of_int ?s"
    by (rule f64_of_int_id) (use sampleSize_nonneg [of n_pes] sampleSize_le [of n_pes] in simp_all)
  have t': "f64_of_int ?t = of_int ?t"
    by (rule f64_of_int_id) (use t in simp_all)
  have f: "fraction n_pes n_total = min (f64 ?q) 1"
    by (simp only: fraction_def f64_div_def s t')
  have q0: "0 \<le> ?q" using sampleSize_nonneg [of n_pes] by simp
  consider "?q = 0" | "0 < ?q" "?q \<le> 1" | "1 < ?q" using q0 by linarith
  then show ?thesis
  proof cases
    case 1
    show ?thesis unfolding f 1 by simp
  next
    case 2
    have "f64 ?q \<le> 1" by (rule f64_le_one) (use 2 in simp_all)
    then have "min (f64 ?q) 1 = f64 ?q" by simp
    moreover have "min ?q 1 = ?q" using 2 by simp
    ultimately show ?thesis unfolding f using f64_error(2) [OF 2(1)] by simp
  next
    case 3
    have "1 \<le> f64 ?q" by (rule f64_ge_one) (use 3 in simp)
    then have "min (f64 ?q) 1 = 1" by simp
    moreover have "min ?q 1 = 1" using 3 by simp
    ultimately show ?thesis unfolding f by simp
  qed
qed

lemma ceiling_close:
  fixes p x :: real
  assumes "\<bar>p - x\<bar> < 1"
  shows "\<bar>\<lceil>p\<rceil> - \<lceil>x\<rceil>\<bar> \<le> 1"
proof -
  have "p \<le> of_int (\<lceil>x\<rceil> + 1)" using assms le_of_int_ceiling [of x] by simp linarith
  then have a: "\<lceil>p\<rceil> \<le> \<lceil>x\<rceil> + 1" by (rule ceiling_le)
  have "x \<le> of_int (\<lceil>p\<rceil> + 1)" using assms le_of_int_ceiling [of p] by simp linarith
  then have "\<lceil>x\<rceil> \<le> \<lceil>p\<rceil> + 1" by (rule ceiling_le)
  with a show ?thesis by linarith
qed

lemma rounding_chain:
  fixes x y p :: real
  assumes x0: "0 \<le> x" and xb: "x \<le> 2 ^ 51"
    and yx: "\<bar>y - x\<bar> \<le> x / 2 ^ 53" and py: "\<bar>p - y\<bar> \<le> y / 2 ^ 53"
  shows "\<bar>p - x\<bar> < 1"
proof -
  have xb': "x \<le> 2251799813685248" using xb by simp
  have yx': "\<bar>y - x\<bar> \<le> x / 9007199254740992" using yx by simp
  have py': "\<bar>p - y\<bar> \<le> y / 9007199254740992" using py by simp
  show ?thesis using x0 xb' yx' py' by linarith
qed

lemma n_loc_samples_close:
  assumes t: "int n_total \<le> 2 ^ 53" and n: "int n_local \<le> 2 ^ 51"
  shows "\<bar>n_loc_samples n_pes n_total n_local - spec_sample_count n_pes n_total n_local\<bar> \<le> 1"
proof -
  let ?fs = "min (real_of_int (sampleSize n_pes) / real_of_int (max (int n_total) 1)) 1"
  let ?f = "fraction n_pes n_total"
  let ?N = "real n_local"
  define x where "x = ?fs * ?N"
  define y where "y = ?f * ?N"
  have N: "f64_of_int (int n_local) = ?N"
    using f64_of_int_id [of "int n_local"] n by simp
  have N51: "?N \<le> 2 ^ 51"
  proof -
    have "real_of_int (int n_local) \<le> real_of_int (2 ^ 51)" using n by (simp only: of_int_le_iff)
    then show ?thesis by simp
  qed
  have fs0: "0 \<le> ?fs" using sampleSize_nonneg [of n_pes] by simp
  have fs1: "?fs \<le> 1" by simp
  have f0: "0 \<le> ?f" using fraction_range by blast
  have x0: "0 \<le> x" unfolding x_def using fs0 by (intro mult_nonneg_nonneg) simp_all
  have "?fs * ?N \<le> 1 * ?N" using fs1 by (intro mult_right_mono) simp_all
  then have xb: "x \<le> 2 ^ 51" unfolding x_def using N51 by linarith
  have fe: "\<bar>?f - ?fs\<bar> \<le> ?fs / 2 ^ 53" by (rule fraction_error [OF t])
  have "\<bar>y - x\<bar> = \<bar>?f - ?fs\<bar> * ?N"
    unfolding x_def y_def by (simp add: left_diff_distrib [symmetric] abs_mult)
  also have "\<dots> \<le> ?fs / 2 ^ 53 * ?N" using fe by (intro mult_right_mono) simp_all
  also have "\<dots> = x / 2 ^ 53" unfolding x_def by simp
  finally have yx: "\<bar>y - x\<bar> \<le> x / 2 ^ 53" .
  have y0: "0 \<le> y" unfolding y_def using f0 by (intro mult_nonneg_nonneg) simp_all
  have py: "\<bar>f64 y - y\<bar> \<le> y / 2 ^ 53"
  proof (cases "y = 0")
    case True
    show ?thesis unfolding True by simp
  next
    case False
    with y0 have "0 < y" by simp
    then show ?thesis by (rule f64_error(2))
  qed
  have "\<bar>f64 y - x\<bar> < 1" by (rule rounding_chain [OF x0 xb yx py])
  then have c: "\<bar>\<lceil>f64 y\<rceil> - \<lceil>x\<rceil>\<bar> \<le> 1" by (rule ceiling_close)
  have a: "n_loc_samples n_pes n_total n_local = min \<lceil>f64 y\<rceil> (int n_local)"
    by (simp only: n_loc_samples_def f64_mul_def N y_def)
  have b: "spec_sample_count n_pes n_total n_local = min \<lceil>x\<rceil> (int n_local)"
    by (simp add: spec_sample_count_def Let_def sampleSize_def samplePointsPerPartitionHint_def
          MIN_SAMPLES_def x_def)
  show ?thesis unfolding a b using c by linarith
qed

lemma n_loc_samples_all:
  assumes "max (int n_total) 1 \<le> sampleSize n_pes" and n: "int n_local \<le> 2 ^ 53"
  shows "n_loc_samples n_pes n_total n_local = int n_local"
proof -
  let ?s = "sampleSize n_pes"
  let ?t = "max (int n_total) 1"
  have s: "f64_of_int ?s = of_int ?s"
    by (rule f64_of_int_id) (use sampleSize_nonneg [of n_pes] sampleSize_le [of n_pes] in simp_all)
  have "?t \<le> 1000000" using assms(1) sampleSize_le [of n_pes] by linarith
  then have t: "f64_of_int ?t = of_int ?t"
    by (intro f64_of_int_id) simp_all
  have "1 \<le> real_of_int ?s / real_of_int ?t"
  proof -
    have "real_of_int ?t \<le> real_of_int ?s" using assms(1) by (simp only: of_int_le_iff)
    moreover have "0 < real_of_int ?t" by simp
    ultimately show ?thesis by (simp only: le_divide_eq_1_pos)
  qed
  then have "1 \<le> f64 (real_of_int ?s / real_of_int ?t)" by (rule f64_ge_one)
  then have f: "fraction n_pes n_total = 1"
    by (simp add: fraction_def f64_div_def s t)
  have N: "f64_of_int (int n_local) = real n_local"
    using f64_of_int_id [of "int n_local"] n by simp
  have "f64 (real n_local) = real n_local"
    using f64_of_int_exact [of "int n_local"] n by simp
  then show ?thesis by (simp add: n_loc_samples_def f64_mul_def f N)
qed

lemma n_loc_samples_147: "n_loc_samples 1 147 147 = 21"
  by code_simp

lemma spec_sample_count_147: "spec_sample_count 1 147 147 = 20"
  by code_simp

lemma sampler_total:
  "sampler g n_pes n_total key_arr =
     Inr (map (\<lambda>j. key_arr ! (g j mod length key_arr))
            [0..<nat (n_loc_samples n_pes n_total (length key_arr))])"
proof (cases "key_arr = []")
  case True
  have "n_loc_samples n_pes n_total 0 = 0"
    using n_loc_samples_range [of n_pes n_total 0] by simp
  with True show ?thesis by (simp add: sampler_def randint_def)
next
  case False
  let ?n = "length key_arr"
  let ?m = "n_loc_samples n_pes n_total ?n"
  have m: "0 \<le> ?m" using n_loc_samples_range by blast
  have pos: "0 < int ?n" using False by simp
  have r: "randint g 0 (int ?n) ?m = Inr (map (\<lambda>j. int (g j) mod int ?n) [0..<nat ?m])"
    using m pos by (simp add: randint_def)
  have ix: "py_index key_arr (int (g j) mod int ?n) = Inr (key_arr ! (g j mod ?n))" for j
    using pos by (simp add: py_index_def zmod_int [symmetric] del: of_nat_mod)
  have "mapE (py_index key_arr) (map (\<lambda>j. int (g j) mod int ?n) [0..<nat ?m])
        = mapE (\<lambda>j. py_index key_arr (int (g j) mod int ?n)) [0..<nat ?m]"
    by (simp add: mapE_map o_def)
  also have "\<dots> = Inr (map (\<lambda>j. key_arr ! (g j mod ?n)) [0..<nat ?m])"
    by (rule mapE_cong_Inr) (rule ix)
  finally show ?thesis using r
    by (simp add: sampler_def Let_def)
qed

lemma sampler_stage:
  "mapE (\<lambda>my_rank. sampler (g my_rank) n_pes n_total (key_arrs ! my_rank)) [0..<n]
     = Inr (map (\<lambda>r. samples_of (g r) n_pes n_total (key_arrs ! r)) [0..<n])"
  by (rule mapE_cong_Inr) (simp add: sampler_total samples_of_def)

subsection \<open>Bounds coordinator\<close>

lemma py_index_nat: "i < length xs \<Longrightarrow> py_index xs (int i) = Inr (xs ! i)"
  by (simp add: py_index_def)

lemma py_index_in_range: "0 \<le> i \<Longrightarrow> i < int (length xs) \<Longrightarrow> py_index xs i = Inr (xs ! nat i)"
  by (simp add: py_index_def)

lemma unchecked_read_in_range:
  "0 \<le> i \<Longrightarrow> i < int (length xs) \<Longrightarrow> unchecked_read mem xs i = xs ! nat i"
  by (simp add: unchecked_read_def)

lemma unchecked_read_empty: "i < 0 \<Longrightarrow> unchecked_read mem [] i = mem i"
  by (simp add: unchecked_read_def)

lemma cut_index_range:
  assumes "0 < n_samples"
  shows "0 \<le> cut_index n_samples n_pes i \<and> cut_index n_samples n_pes i < int n_samples"
proof -
  have "0 \<le> (int i + 1) * \<lceil>f64_div (f64_of_int (int n_samples)) (f64_of_int (int n_pes))\<rceil>"
    using step_nonneg [of n_samples n_pes] by simp
  then show ?thesis using assms by (simp add: cut_index_def)
qed

lemma cut_index_mono:
  assumes "i \<le> j"
  shows "cut_index n_samples n_pes i \<le> cut_index n_samples n_pes j"
proof -
  let ?step = "\<lceil>f64_div (f64_of_int (int n_samples)) (f64_of_int (int n_pes))\<rceil>"
  have "(int i + 1) * ?step \<le> (int j + 1) * ?step"
    using assms step_nonneg [of n_samples n_pes] by (intro mult_right_mono) simp_all
  then show ?thesis unfolding cut_index_def by (rule min.mono) simp
qed

lemma cut_index_no_samples: "cut_index 0 n_pes i = - 1"
  by (simp add: cut_index_def f64_div_def f64_of_int_def)

lemma root_bounds_eq:
  assumes "0 < n_pes"
  shows "root_bounds mem n_pes all_samples =
           Inr (map (\<lambda>i. unchecked_read mem (sort all_samples) (cut_index (length all_samples) n_pes i))
                  [0..<n_pes - 1])"
  using assms by (simp add: root_bounds_def step_of_def cut_index_def Let_def)

lemma root_bounds_nonempty:
  assumes "0 < n_pes" and "all_samples \<noteq> []"
  shows "root_bounds mem n_pes all_samples =
           Inr (map (\<lambda>i. sort all_samples ! nat (cut_index (length all_samples) n_pes i))
                  [0..<n_pes - 1])"
proof -
  have n: "0 < length all_samples" using assms(2) by simp
  have "unchecked_read mem (sort all_samples) (cut_index (length all_samples) n_pes i)
          = sort all_samples ! nat (cut_index (length all_samples) n_pes i)" for i
    using cut_index_range [OF n, of n_pes i] by (intro unchecked_read_in_range) simp_all
  then show ?thesis by (simp add: root_bounds_eq [OF assms(1)])
qed

lemma root_bounds_no_samples:
  assumes "0 < n_pes"
  shows "root_bounds mem n_pes [] = Inr (replicate (n_pes - 1) (mem (- 1)))"
  by (simp add: root_bounds_eq [OF assms] cut_index_no_samples unchecked_read_empty map_replicate_const)

lemma root_bounds_single: "root_bounds mem (Suc 0) all_samples = Inr []"
  by (simp add: root_bounds_eq)

lemma sorted_cuts:
  assumes "0 < length xs" and "sorted xs"
  shows "sorted (map (\<lambda>i. xs ! nat (cut_index (length xs) n_pes i)) [0..<k])"
proof -
  have "xs ! nat (cut_index (length xs) n_pes i) \<le> xs ! nat (cut_index (length xs) n_pes j)"
    if "i \<le> j" for i j
  proof -
    have "nat (cut_index (length xs) n_pes i) \<le> nat (cut_index (length xs) n_pes j)"
      using cut_index_mono [OF that, of "length xs" n_pes] by (rule nat_mono)
    moreover have "nat (cut_index (length xs) n_pes j) < length xs"
      using cut_index_range [OF assms(1), of n_pes j] by linarith
    ultimately show ?thesis using assms(2) by (simp add: sorted_nth_mono)
  qed
  then show ?thesis by (simp add: sorted_iff_nth_mono)
qed

lemma sort_example: "sort (concat [[5, 1], [9], [3, 8, 2::int]]) = [1, 2, 3, 5, 8, 9]"
  by simp

subsection \<open>Routing loop\<close>

lemma length_scan [simp]: "length (scan n_pes bounds node_id keys) = length keys"
  by (induction keys arbitrary: node_id) (simp_all add: Let_def)

lemma scan_range:
  "node_id < n_pes \<Longrightarrow> d \<in> set (scan n_pes bounds node_id keys) \<Longrightarrow> node_id \<le> d \<and> d < n_pes"
proof (induction keys arbitrary: node_id)
  case Nil
  then show ?case by simp
next
  case (Cons key keys)
  let ?n = "if node_id < n_pes - 1 \<and> bounds ! node_id \<le> key then node_id + 1 else node_id"
  have n: "?n < n_pes" "node_id \<le> ?n" using Cons.prems(1) by auto
  from Cons.prems(2) have "d = ?n \<or> d \<in> set (scan n_pes bounds ?n keys)"
    by (simp add: Let_def)
  then show ?case
  proof
    assume "d = ?n" with n show ?thesis by simp
  next
    assume "d \<in> set (scan n_pes bounds ?n keys)"
    from Cons.IH [OF n(1) this] n(2) show ?thesis by linarith
  qed
qed

lemma sorted_scan: "node_id < n_pes \<Longrightarrow> sorted (node_id # scan n_pes bounds node_id keys)"
proof (induction keys arbitrary: node_id)
  case Nil
  then show ?case by simp
next
  case (Cons key keys)
  let ?n = "if node_id < n_pes - 1 \<and> bounds ! node_id \<le> key then node_id + 1 else node_id"
  have n: "?n < n_pes" "node_id \<le> ?n" using Cons.prems(1) by auto
  have s: "sorted (?n # scan n_pes bounds ?n keys)" by (rule Cons.IH [OF n(1)])
  have "\<forall>d\<in>set (scan n_pes bounds ?n keys). node_id \<le> d"
    using scan_range [OF n(1)] n(2) by (meson le_trans)
  with s n(2) show ?case by (simp add: Let_def)
qed

lemma scan_step_le:
  "Suc i < length keys \<Longrightarrow>
     scan n_pes bounds node_id keys ! Suc i \<le> Suc (scan n_pes bounds node_id keys ! i)"
proof (induction keys arbitrary: node_id i)
  case Nil
  then show ?case by simp
next
  case (Cons key keys)
  show ?case
  proof (cases i)
    case 0
    with Cons.prems show ?thesis by (cases keys) (auto simp: Let_def)
  next
    case (Suc j)
    with Cons.prems Cons.IH [of j] show ?thesis by (simp add: Let_def)
  qed
qed

lemma scan_take: "scan n_pes bounds node_id (take n keys) = take n (scan n_pes bounds node_id keys)"
proof (induction keys arbitrary: node_id n)
  case Nil
  then show ?case by simp
next
  case (Cons key keys)
  then show ?case by (cases n) (simp_all add: Let_def)
qed

lemma advance_eq:
  "length bounds = n_pes - 1 \<Longrightarrow>
   advance n_pes bounds node_id key =
     Inr (if node_id < n_pes - 1 \<and> bounds ! node_id \<le> key then node_id + 1 else node_id)"
  by (simp add: advance_def py_index_nat)

lemma route_loop_eq:
  assumes "length bounds = n_pes - 1"
  shows "node_id < n_pes \<Longrightarrow> length (send_counts m) = n_pes \<Longrightarrow>
     route_loop n_pes bounds keys node_id m =
       Inr (scan n_pes bounds node_id keys,
            m\<lparr>send_counts := fold bump (scan n_pes bounds node_id keys) (send_counts m)\<rparr>)"
proof (induction keys arbitrary: node_id m)
  case Nil
  then show ?case by simp
next
  case (Cons key keys)
  let ?n = "if node_id < n_pes - 1 \<and> bounds ! node_id \<le> key then node_id + 1 else node_id"
  let ?m = "m\<lparr>send_counts := bump ?n (send_counts m)\<rparr>"
  have n: "?n < n_pes" using Cons.prems(1) by auto
  have u: "update_shuffle_meta m ?n = Inr ?m"
    using n Cons.prems(2) by (simp add: update_shuffle_meta_def bump_def)
  have l: "length (send_counts ?m) = n_pes" using Cons.prems(2) by (simp add: bump_def)
  show ?case
    by (simp only: route_loop.simps advance_eq [OF assms] bindE_Inr u Cons.IH [OF n l])
       (simp add: Let_def)
qed

lemma route_eq:
  assumes "0 < n_pes" and "length bounds = n_pes - 1"
  shows "route n_pes key_arr bounds =
       Inr (scan n_pes bounds 0 key_arr,
            (alloc_shuffle_metadata key_arr n_pes)
              \<lparr>send_counts := fold bump (scan n_pes bounds 0 key_arr) (replicate n_pes 0)\<rparr>)"
  unfolding route_def
  by (subst route_loop_eq [OF assms(2) assms(1)]) (simp_all add: alloc_shuffle_metadata_def)

subsection \<open>Counts\<close>

lemma int32_id: "- 2147483648 \<le> x \<Longrightarrow> x < 2147483648 \<Longrightarrow> int32 x = x"
  by (simp add: int32_def)

lemma int32_add_left: "int32 (int32 x + y) = int32 (x + y)"
proof -
  have "(int32 x + y + 2147483648) mod 4294967296
        = ((x + 2147483648) mod 4294967296 + y) mod 4294967296"
    by (simp add: int32_def)
  also have "\<dots> = (x + 2147483648 + y) mod 4294967296"
    by (rule mod_add_left_eq)
  also have "\<dots> = (x + y + 2147483648) mod 4294967296"
    by (simp only: ac_simps)
  finally show ?thesis by (simp add: int32_def [of "int32 x + y"] int32_def [of "x + y"])
qed

lemma length_fold_bump [simp]: "length (fold bump ds cs) = length cs"
  by (induction ds arbitrary: cs) (simp_all add: bump_def)

lemma fold_bump_nth:
  "\<forall>x\<in>set ds. x < length cs \<Longrightarrow> d < length cs \<Longrightarrow> int32 (cs ! d) = cs ! d \<Longrightarrow>
     fold bump ds cs ! d = int32 (cs ! d + int (count_list ds d))"
proof (induction ds arbitrary: cs)
  case Nil
  then show ?case by simp
next
  case (Cons x ds)
  have l: "\<forall>y\<in>set ds. y < length (bump x cs)" "d < length (bump x cs)"
    using Cons.prems by (simp_all add: bump_def)
  show ?case
  proof (cases "x = d")
    case True
    have v: "bump x cs ! d = int32 (cs ! d + 1)"
      using True Cons.prems(2) by (simp add: bump_def)
    have i: "int32 (bump x cs ! d) = bump x cs ! d"
      unfolding v using int32_add_left [of "cs ! d + 1" 0] by simp
    have "fold bump ds (bump x cs) ! d = int32 (int32 (cs ! d + 1) + int (count_list ds d))"
      using Cons.IH [OF l i] unfolding v .
    also have "\<dots> = int32 (cs ! d + 1 + int (count_list ds d))"
      by (rule int32_add_left)
    finally show ?thesis using True by (simp add: add.assoc)
  next
    case False
    have v: "bump x cs ! d = cs ! d" using False by (simp add: bump_def)
    show ?thesis using Cons.IH [OF l] Cons.prems(3) False by (simp add: v)
  qed
qed

lemma sum_count_list_upt:
  "\<forall>x\<in>set ds. x < n \<Longrightarrow> (\<Sum>d\<leftarrow>[0..<n]. count_list ds d) = length ds"
proof (induction ds)
  case Nil
  then show ?case by simp
next
  case (Cons x ds)
  have x: "x < n" using Cons.prems by simp
  have "(\<Sum>d\<leftarrow>[0..<n]. count_list (x # ds) d)
        = (\<Sum>d\<leftarrow>[0..<n]. count_list ds d + (if d = x then 1 else 0))"
    by (rule arg_cong [where f = sum_list]) auto
  also have "\<dots> = (\<Sum>d\<leftarrow>[0..<n]. count_list ds d) + (\<Sum>d\<leftarrow>[0..<n]. if d = x then 1 else 0)"
    by (simp add: sum_list_addf)
  also have "(\<Sum>d\<leftarrow>[0..<n]. if d = x then 1 else 0) = (1::nat)"
    using x by (simp add: interv_sum_list_conv_sum_set_nat)
  finally show ?case using Cons by simp
qed

lemma count_list_le_length: "count_list xs x \<le> length xs"
  by (induction xs) auto

lemma send_counts_exact:
  assumes "\<forall>x\<in>set ds. x < n_pes" and "length ds < 2147483648"
  shows "fold bump ds (replicate n_pes 0) = map (\<lambda>d. int (count_list ds d)) [0..<n_pes]"
proof (rule nth_equalityI)
  show "length (fold bump ds (replicate n_pes 0)) = length (map (\<lambda>d. int (count_list ds d)) [0..<n_pes])"
    by simp
next
  fix d assume "d < length (fold bump ds (replicate n_pes 0))"
  then have d: "d < n_pes" by simp
  have "int (count_list ds d) < 2147483648"
    using count_list_le_length [of ds d] assms(2) by linarith
  then have "int32 (int (count_list ds d)) = int (count_list ds d)"
    by (intro int32_id) simp_all
  moreover have "fold bump ds (replicate n_pes 0) ! d = int32 (replicate n_pes 0 ! d + int (count_list ds d))"
    by (rule fold_bump_nth) (use assms(1) d in \<open>simp_all add: int32_def\<close>)
  ultimately show "fold bump ds (replicate n_pes 0) ! d = map (\<lambda>d. int (count_list ds d)) [0..<n_pes] ! d"
    using d by simp
qed

lemma sum_list_counts:
  assumes "\<forall>x\<in>set ds. x < n_pes"
  shows "sum_list (map (\<lambda>d. int (count_list ds d)) [0..<n_pes]) = int (length ds)"
proof -
  have "sum_list (map (\<lambda>d. int (count_list ds d)) [0..<n_pes]) = int (\<Sum>d\<leftarrow>[0..<n_pes]. count_list ds d)"
    by (induction n_pes) simp_all
  then show ?thesis using sum_count_list_upt [OF assms] by simp
qed

lemma scan_single: "scan (Suc 0) bounds 0 keys = replicate (length keys) 0"
  by (induction keys) (simp_all add: Let_def)

lemma count_list_replicate_same: "count_list (replicate n x) x = n"
  by (induction n) simp_all

lemma list_of_length_two: "length xs = 2 \<Longrightarrow> xs = [xs ! 0, xs ! 1]"
  by (cases xs; cases "tl xs") auto

lemma list_of_length_one: "length xs = 1 \<Longrightarrow> xs = [xs ! 0]"
  by (cases xs) simp_all

subsection \<open>Three workers holding \<open>[0, 0, 0]\<close>, \<open>[1, 2]\<close> and \<open>[5]\<close>\<close>

lemma n_loc_samples_three_workers:
  "n_loc_samples 3 6 3 = 3" "n_loc_samples 3 6 2 = 2" "n_loc_samples 3 6 1 = 1"
  by code_simp+

lemma three_worker_bounds:
  fixes g :: "nat \<Rightarrow> nat \<Rightarrow> nat"
  shows "\<exists>b. (b = 1 \<or> b = 2) \<and>
     root_bounds mem 3 (all_samples_of g [[0, 0, 0::int], [1, 2], [5]]) = Inr [0, b]"
proof -
  let ?x = "[1, 2::int] ! (g 1 0 mod 2)"
  let ?y = "[1, 2::int] ! (g 1 1 mod 2)"
  have z: "[0, 0, 0::int] ! (k mod 3) = 0" for k
  proof -
    have "k mod 3 < 3" by simp
    then have "k mod 3 = 0 \<or> k mod 3 = 1 \<or> k mod 3 = 2" by linarith
    then show ?thesis by auto
  qed
  have x: "?x = 1 \<or> ?x = 2"
  proof -
    have "g 1 0 mod 2 = 0 \<or> g 1 0 mod 2 = 1" by linarith
    then show ?thesis by auto
  qed
  have y: "?y = 1 \<or> ?y = 2"
  proof -
    have "g 1 1 mod 2 = 0 \<or> g 1 1 mod 2 = 1" by linarith
    then show ?thesis by auto
  qed
  let ?ks = "[[0, 0, 0::int], [1, 2], [5]]"
  have lk: "length ?ks = 3" by simp
  have tk: "sum_list (map length ?ks) = 6" by simp
  have u: "[0..<3] = [0, 1, 2::nat]" by (simp add: upt_rec)
  have k: "?ks ! 0 = [0, 0, 0]" "?ks ! 1 = [1, 2]" "?ks ! 2 = [5]" by simp_all
  have l: "length [0, 0, 0::int] = 3" "length [1, 2::int] = 2" "length [5::int] = 1" by simp_all
  have s0: "samples_of (g 0) 3 6 [0, 0, 0::int] = [0, 0, 0]"
    unfolding samples_of_def l n_loc_samples_three_workers by (simp add: upt_rec z)
  have s1: "samples_of (g 1) 3 6 [1, 2::int] = [?x, ?y]"
    unfolding samples_of_def l n_loc_samples_three_workers by (simp add: upt_rec)
  have s2: "samples_of (g 2) 3 6 [5::int] = [5]"
    unfolding samples_of_def l n_loc_samples_three_workers by (simp add: upt_rec)
  have "all_samples_of g ?ks
          = concat [samples_of (g 0) 3 6 (?ks ! 0), samples_of (g 1) 3 6 (?ks ! 1),
                    samples_of (g 2) 3 6 (?ks ! 2)]"
    unfolding all_samples_of_def lk tk u by (simp only: list.map)
  then have s: "all_samples_of g ?ks = [0, 0, 0, ?x, ?y, 5]"
    unfolding k s0 s1 s2 by simp
  have c: "cut_index 6 3 0 = 2" "cut_index 6 3 1 = 4"
    by code_simp+
  have r: "root_bounds mem 3 [0, 0, 0, a, b, 5::int]
             = Inr [sort [0, 0, 0, a, b, 5] ! 2, sort [0, 0, 0, a, b, 5] ! 4]" for a b
  proof -
    have l6: "length [0, 0, 0, a, b, 5::int] = 6" by simp
    have u2: "[0..<3 - 1] = [0, 1::nat]" by (simp add: upt_rec)
    have n: "nat 2 = 2" "nat 4 = 4" by simp_all
    have "root_bounds mem 3 [0, 0, 0, a, b, 5::int]
            = Inr (map (\<lambda>i. sort [0, 0, 0, a, b, 5] ! nat (cut_index (length [0, 0, 0, a, b, 5::int]) 3 i)) [0..<3 - 1])"
      by (rule root_bounds_nonempty) simp_all
    then show ?thesis by (simp only: l6 u2 list.map c n)
  qed
  have v: "sort [0, 0, 0, 1, 1, 5::int] ! 2 = 0" "sort [0, 0, 0, 1, 1, 5::int] ! 4 = 1"
    "sort [0, 0, 0, 1, 2, 5::int] ! 2 = 0" "sort [0, 0, 0, 1, 2, 5::int] ! 4 = 2"
    "sort [0, 0, 0, 2, 1, 5::int] ! 2 = 0" "sort [0, 0, 0, 2, 1, 5::int] ! 4 = 2"
    "sort [0, 0, 0, 2, 2, 5::int] ! 2 = 0" "sort [0, 0, 0, 2, 2, 5::int] ! 4 = 2"
    by simp_all
  from x y show ?thesis
    unfolding s r by (elim disjE) (simp_all only: v, simp_all)
qed

lemma route_one_row:
  assumes "b = 1 \<or> b = 2"
  shows "\<exists>m. route 3 [5::int] [0, b] = Inr ([1], m)" and "upper_bound [0, b] (5::int) = 2"
proof -
  have "route 3 [5::int] [0, b] =
       Inr (scan 3 [0, b] 0 [5], (alloc_shuffle_metadata [5] 3)
              \<lparr>send_counts := fold bump (scan 3 [0, b] 0 [5]) (replicate 3 0)\<rparr>)"
    by (rule route_eq) simp_all
  moreover have "scan 3 [0, b] 0 [5::int] = [1]" by (simp add: Let_def)
  ultimately show "\<exists>m. route 3 [5::int] [0, b] = Inr ([1], m)" by simp
  show "upper_bound [0, b] (5::int) = 2" using assms by (auto simp: upper_bound_def)
qed

section \<open>The claims about the sampler, the bounds and the router\<close>

text \<open>
  Claim C6, amended.  The sampler computes \<open>sampleSize = min(20 * n_pes, 1000000)\<close>
  and, in double precision, \<open>fraction = min(sampleSize / max(n_total, 1), 1.0)\<close> and
  the local sample count \<open>min(ceil(fraction * n_local), n_local)\<close>: the conversions of
  the integers, the quotient and the product are each rounded to the nearest double.  The
  count lies between \<open>0\<close> and \<open>n_local\<close>.  For at most \<open>2^53\<close> rows in total and
  at most \<open>2^51\<close> local rows it differs by at most one from the count that the same
  formulas give in exact arithmetic, and when the total is at most \<open>sampleSize\<close> it is
  \<open>n_local\<close>.  The sampler returns that many keys of the local array without raising,
  and an empty local array gives the empty sample.
\<close>

theorem sampler_sample_count:
  "sampleSize n_pes = min (20 * int n_pes) 1000000 \<and>
   n_loc_samples n_pes n_total n_local =
     min \<lceil>f64 (min (f64 (f64 (of_int (sampleSize n_pes)) / f64 (of_int (max (int n_total) 1)))) 1
                * f64 (of_int (int n_local)))\<rceil>
         (int n_local) \<and>
   0 \<le> n_loc_samples n_pes n_total n_local \<and>
   n_loc_samples n_pes n_total n_local \<le> int n_local \<and>
   (int n_total \<le> 2 ^ 53 \<and> int n_local \<le> 2 ^ 51 \<longrightarrow>
      \<bar>n_loc_samples n_pes n_total n_local - spec_sample_count n_pes n_total n_local\<bar> \<le> 1) \<and>
   (max (int n_total) 1 \<le> sampleSize n_pes \<and> int n_local \<le> 2 ^ 53 \<longrightarrow>
      n_loc_samples n_pes n_total n_local = int n_local) \<and>
   (\<exists>samples. sampler g n_pes n_total key_arr = Inr samples \<and>
      int (length samples) = n_loc_samples n_pes n_total (length key_arr) \<and>
      set samples \<subseteq> set key_arr) \<and>
   sampler g n_pes n_total ([]::'k list) = Inr []"
proof -
  have r: "0 \<le> n_loc_samples n_pes n_total (length key_arr)"
    using n_loc_samples_range by blast
  have m: "g j mod length key_arr < length key_arr"
    if "j < nat (n_loc_samples n_pes n_total (length key_arr))" for j
  proof -
    have "0 < length key_arr" using that n_loc_samples_range [of n_pes n_total "length key_arr"]
      by (cases "length key_arr") simp_all
    then show ?thesis by simp
  qed
  have s: "set (map (\<lambda>j. key_arr ! (g j mod length key_arr))
            [0..<nat (n_loc_samples n_pes n_total (length key_arr))]) \<subseteq> set key_arr"
    using m by auto
  have e: "sampler g n_pes n_total ([]::'k list) = Inr []"
    using n_loc_samples_range [of n_pes n_total 0] by (simp add: sampler_total)
  have d1: "sampleSize n_pes = min (20 * int n_pes) 1000000"
    by (simp add: sampleSize_def samplePointsPerPartitionHint_def MIN_SAMPLES_def)
  have d2: "n_loc_samples n_pes n_total n_local =
     min \<lceil>f64 (min (f64 (f64 (of_int (sampleSize n_pes)) / f64 (of_int (max (int n_total) 1)))) 1
                * f64 (of_int (int n_local)))\<rceil>
         (int n_local)"
    by (simp only: n_loc_samples_def fraction_def f64_mul_def f64_div_def f64_of_int_def)
  have cl: "int n_total \<le> 2 ^ 53 \<and> int n_local \<le> 2 ^ 51 \<longrightarrow>
      \<bar>n_loc_samples n_pes n_total n_local - spec_sample_count n_pes n_total n_local\<bar> \<le> 1"
    using n_loc_samples_close by blast
  have al: "max (int n_total) 1 \<le> sampleSize n_pes \<and> int n_local \<le> 2 ^ 53 \<longrightarrow>
      n_loc_samples n_pes n_total n_local = int n_local"
    using n_loc_samples_all by blast
  have x: "\<exists>samples. sampler g n_pes n_total key_arr = Inr samples \<and>
      int (length samples) = n_loc_samples n_pes n_total (length key_arr) \<and>
      set samples \<subseteq> set key_arr"
    unfolding sampler_total using r s by simp
  from d1 d2 n_loc_samples_range [of n_pes n_total n_local] cl al x e
  show ?thesis by blast
qed

text \<open>
  The amended claim C6 at ten workers, 147 rows in total and 100 local rows; the sampler
  on the local keys \<open>[5, 1, 9]\<close>.
\<close>

theorem sampler_sample_count_witness:
  "int 147 \<le> 2 ^ 53 \<and> int 100 \<le> 2 ^ 51 \<and> max (int 147) 1 \<le> sampleSize 10 \<and>
   n_loc_samples 10 147 100 = 100 \<and> spec_sample_count 10 147 100 = 100 \<and>
   sampler (\<lambda>j. j) 10 147 [5, 1, 9::int] = Inr [5, 1, 9]"
proof -
  have h: "int 147 \<le> 2 ^ 53 \<and> int 100 \<le> 2 ^ 51" "max (int 147) 1 \<le> sampleSize 10 \<and> int 100 \<le> 2 ^ 53"
    by (simp_all add: sampleSize_def samplePointsPerPartitionHint_def MIN_SAMPLES_def)
  from sampler_sample_count [of 10 147 100 "\<lambda>j. j" "[5, 1, 9::int]"] h
  have n: "n_loc_samples 10 147 100 = int 100"
    and c: "\<bar>n_loc_samples 10 147 100 - spec_sample_count 10 147 100\<bar> \<le> 1"
    and "\<exists>samples. sampler (\<lambda>j. j) 10 147 [5, 1, 9::int] = Inr samples \<and>
      int (length samples) = n_loc_samples 10 147 (length [5, 1, 9::int]) \<and>
      set samples \<subseteq> set [5, 1, 9::int]"
    by blast+
  have sp: "spec_sample_count 10 147 100 = 100"
    by (simp add: spec_sample_count_def)
  have l3: "length [5, 1, 9::int] = 3" by simp
  have "n_loc_samples 10 147 3 = int 3"
    by (rule n_loc_samples_all)
       (simp_all add: sampleSize_def samplePointsPerPartitionHint_def MIN_SAMPLES_def)
  then have l: "n_loc_samples 10 147 3 = 3" by simp
  have sm: "sampler (\<lambda>j. j) 10 147 [5, 1, 9::int] = Inr [5, 1, 9]"
    unfolding sampler_total l3 l by (simp add: upt_rec)
  from h n sp sm show ?thesis by simp
qed

text \<open>
  Claim C6 as stated fails: for one worker with 147 rows the exact formulas give
  \<open>ceil(20 / 147 * 147) = 20\<close> samples, while the rounded quotient times 147 rounds to
  a double above 20 and the sampler draws 21.
\<close>

theorem sampler_count_above_exact:
  "spec_sample_count 1 147 147 = 20 \<and> n_loc_samples 1 147 147 = 21 \<and>
   (\<exists>samples. sampler (\<lambda>j. j) 1 147 (replicate 147 (0::int)) = Inr samples \<and>
      length samples = 21)"
proof -
  let ?k = "replicate 147 (0::int)"
  have l: "length ?k = 147" by simp
  have "sampler (\<lambda>j. j) 1 147 ?k = Inr (map (\<lambda>j. ?k ! (j mod 147)) [0..<nat 21])"
    unfolding sampler_total l n_loc_samples_147 ..
  moreover have "length (map (\<lambda>j. ?k ! (j mod 147)) [0..<nat 21]) = 21" by simp
  ultimately have "\<exists>samples. sampler (\<lambda>j. j) 1 147 ?k = Inr samples \<and> length samples = 21"
    by blast
  with spec_sample_count_147 n_loc_samples_147 show ?thesis by blast
qed

text \<open>
  The cuts when at least one sample was gathered: the coordinator returns
  \<open>n_pes - 1\<close> cuts, cut \<open>i\<close> is the sorted sample at index
  \<open>min((i + 1) * step, n_samples - 1)\<close>, which lies inside the array, the cuts are
  non-decreasing, and every worker holds the same sequence; for fewer than \<open>2^53\<close>
  samples the rounded \<open>step\<close> is \<open>ceil(n_samples / n_pes)\<close>.
\<close>

lemma bounds_coordinator_with_samples:
  assumes "0 < n_pes" and "concat samples \<noteq> []"
  shows "\<exists>bounds step. bounds_coordinator mem n_pes samples = Inr (replicate n_pes bounds) \<and>
     length bounds = n_pes - 1 \<and>
     step_of (length (concat samples)) n_pes = Inr step \<and>
     (length (concat samples) < 2 ^ 53 \<and> n_pes \<le> 2 ^ 53 \<longrightarrow>
        step = \<lceil>real (length (concat samples)) / real n_pes\<rceil>) \<and>
     (\<forall>i<n_pes - 1.
        0 \<le> min ((int i + 1) * step) (int (length (concat samples)) - 1) \<and>
        bounds ! i = sort (concat samples) !
          nat (min ((int i + 1) * step) (int (length (concat samples)) - 1))) \<and>
     sorted bounds"
proof -
  let ?s = "sort (concat samples)"
  let ?n = "length (concat samples)"
  let ?step = "\<lceil>f64_div (f64_of_int (int ?n)) (f64_of_int (int n_pes))\<rceil>"
  let ?b = "map (\<lambda>i. ?s ! nat (cut_index ?n n_pes i)) [0..<n_pes - 1]"
  have n: "0 < ?n" using assms(2) by simp
  have r: "root_bounds mem n_pes (concat samples) = Inr ?b"
    by (rule root_bounds_nonempty [OF assms])
  have "sorted (map (\<lambda>i. ?s ! nat (cut_index (length ?s) n_pes i)) [0..<n_pes - 1])"
    using assms(2) by (intro sorted_cuts) simp_all
  then have s: "sorted ?b" by simp
  have st: "step_of ?n n_pes = Inr ?step" using assms(1) by (simp add: step_of_def)
  have ex: "length (concat samples) < 2 ^ 53 \<and> n_pes \<le> 2 ^ 53 \<longrightarrow>
              ?step = \<lceil>real ?n / real n_pes\<rceil>"
    using step_of_exact [OF _ assms(1), of ?n] st by auto
  have ix: "\<forall>i<n_pes - 1.
        0 \<le> min ((int i + 1) * ?step) (int ?n - 1) \<and>
        ?b ! i = ?s ! nat (min ((int i + 1) * ?step) (int ?n - 1))"
    using cut_index_range [OF n, of n_pes] by (simp add: cut_index_def)
  have bc: "bounds_coordinator mem n_pes samples = Inr (replicate n_pes ?b)"
    using r by (simp add: bounds_coordinator_def gatherv_def bcast_def)
  have l: "length ?b = n_pes - 1" by simp
  show ?thesis
    by (intro exI [of _ ?b] exI [of _ ?step] conjI) (rule bc l st ex ix s)+
qed

text \<open>
  Claim C7 fails on the code.  Three workers have gathered no sample.  The root's
  \<open>step\<close> is \<open>0\<close> and the index \<open>min((i + 1) * step, n_samples - 1)\<close> is \<open>-1\<close>
  for both cuts; the compiled read is not checked, so both cuts are what the memory
  before the empty sample array holds.  No cut is a sorted sample.
\<close>

theorem bounds_coordinator_cut_outside_samples:
  "step_of (length (concat [[], [], []::int list])) 3 = Inr 0 \<and>
   bounds_coordinator mem 3 [[], [], []::int list]
     = Inr [[mem (- 1), mem (- 1)], [mem (- 1), mem (- 1)], [mem (- 1), mem (- 1)]] \<and>
   \<not> set [mem (- 1), mem (- 1)] \<subseteq> set (sort (concat [[], [], []::int list]))"
proof -
  have "root_bounds mem 3 ([]::int list) = Inr (replicate (3 - 1) (mem (- 1)))"
    by (rule root_bounds_no_samples) simp
  then have "bounds_coordinator mem 3 [[], [], []::int list]
     = Inr [[mem (- 1), mem (- 1)], [mem (- 1), mem (- 1)], [mem (- 1), mem (- 1)]]"
    by (simp add: bounds_coordinator_def gatherv_def bcast_def numeral_3_eq_3 numeral_2_eq_2)
  moreover have "step_of (length (concat [[], [], []::int list])) 3 = Inr 0"
    by (simp add: step_of_def f64_div_def f64_of_int_def)
  ultimately show ?thesis by simp
qed

text \<open>
  Claim C9, amended.  After the routing loop every row has been given one destination in
  \<open>[0, n_pes)\<close>, and cell \<open>d\<close> of \<open>send_counts\<close> is the number of rows given destination
  \<open>d\<close>, reduced to 32 signed bits.  For fewer than \<open>2^31\<close> local rows the cells are the
  exact numbers and sum to \<open>n_local\<close>.  With one worker every row goes to destination
  \<open>0\<close>.
\<close>

theorem route_counts_every_row:
  assumes "0 < n_pes" and "length bounds = n_pes - 1"
  shows "\<exists>dests m. route n_pes key_arr bounds = Inr (dests, m) \<and>
     length dests = length key_arr \<and>
     (\<forall>i<length key_arr. dests ! i < n_pes) \<and>
     length (send_counts m) = n_pes \<and>
     (\<forall>d<n_pes. send_counts m ! d = int32 (int (count_list dests d))) \<and>
     (length key_arr < 2147483648 \<longrightarrow>
        (\<forall>d<n_pes. send_counts m ! d = int (count_list dests d)) \<and>
        sum_list (send_counts m) = int (length key_arr)) \<and>
     (n_pes = 1 \<longrightarrow> dests = replicate (length key_arr) 0)"
proof -
  let ?d = "scan n_pes bounds 0 key_arr"
  let ?c = "fold bump ?d (replicate n_pes 0)"
  let ?m = "(alloc_shuffle_metadata key_arr n_pes)\<lparr>send_counts := ?c\<rparr>"
  have r: "route n_pes key_arr bounds = Inr (?d, ?m)"
    by (rule route_eq [OF assms])
  have rng: "\<forall>x\<in>set ?d. x < n_pes"
    using scan_range [OF assms(1)] by blast
  have a: "\<forall>i<length key_arr. ?d ! i < n_pes"
    using rng by simp
  have b: "\<forall>d<n_pes. ?c ! d = int32 (int (count_list ?d d))"
  proof (intro allI impI)
    fix d assume d: "d < n_pes"
    have "?c ! d = int32 (replicate n_pes 0 ! d + int (count_list ?d d))"
      by (rule fold_bump_nth) (use rng d in \<open>simp_all add: int32_def\<close>)
    then show "?c ! d = int32 (int (count_list ?d d))" using d by simp
  qed
  have c: "(\<forall>d<n_pes. ?c ! d = int (count_list ?d d)) \<and> sum_list ?c = int (length key_arr)"
    if "length key_arr < 2147483648"
  proof -
    have e: "?c = map (\<lambda>d. int (count_list ?d d)) [0..<n_pes]"
      by (rule send_counts_exact [OF rng]) (use that in simp)
    have "sum_list ?c = int (length ?d)"
      unfolding e by (rule sum_list_counts [OF rng])
    moreover have "\<forall>d<n_pes. ?c ! d = int (count_list ?d d)"
      by (subst e) simp
    ultimately show ?thesis by simp
  qed
  have s: "?d = replicate (length key_arr) 0" if "n_pes = 1"
    using that by (simp add: scan_single)
  show ?thesis
    by (intro exI [of _ ?d] exI [of _ ?m] conjI)
       (use r a b c s in \<open>simp_all\<close>)
qed

text \<open>The amended claim C9 at two workers, boundary \<open>3\<close>, local keys \<open>[1, 5, 2, 9]\<close>.\<close>

theorem route_counts_every_row_witness:
  "(0::nat) < 2 \<and> length [3::int] = 2 - 1 \<and>
   (\<exists>m. route 2 [1, 5, 2, 9::int] [3] = Inr ([0, 1, 1, 1], m) \<and> send_counts m = [1, 3])"
proof -
  have h: "(0::nat) < 2" "length [3::int] = 2 - 1" by simp_all
  from route_counts_every_row [OF h, of "[1, 5, 2, 9]"] obtain dests m where
    r: "route 2 [1, 5, 2, 9::int] [3] = Inr (dests, m)"
    and l: "length (send_counts m) = 2"
    and c: "length [1, 5, 2, 9::int] < 2147483648 \<longrightarrow>
        (\<forall>d<2. send_counts m ! d = int (count_list dests d)) \<and>
        sum_list (send_counts m) = int (length [1, 5, 2, 9::int])"
    by blast
  have d: "dests = [0, 1, 1, 1]"
    using r by (simp add: route_def alloc_shuffle_metadata_def advance_def py_index_def
        update_shuffle_meta_def)
  from c have "send_counts m ! 0 = int (count_list dests 0)" "send_counts m ! 1 = int (count_list dests 1)"
    by simp_all
  then have "send_counts m ! 0 = 1" "send_counts m ! 1 = 3" by (simp_all add: d)
  moreover from l obtain x y where "send_counts m = [x, y]"
    by (cases "send_counts m"; cases "tl (send_counts m)") auto
  ultimately have "send_counts m = [1, 3]" by simp
  with r d show ?thesis by simp
qed

text \<open>
  Claim C9 as stated fails at \<open>2^31\<close> local rows on a single worker: the one count wraps
  to \<open>-2^31\<close>, so the counts do not sum to \<open>n_local\<close>.
\<close>

theorem route_counts_wrap_around:
  "(case route 1 (replicate 2147483648 (0::int)) [] of
      Inl e \<Rightarrow> False
    | Inr (dests, m) \<Rightarrow>
        dests = replicate 2147483648 0 \<and> send_counts m = [- 2147483648] \<and>
        sum_list (send_counts m) \<noteq> int (length (replicate 2147483648 (0::int))))"
proof -
  let ?k = "replicate 2147483648 (0::int)"
  let ?d = "scan 1 [] 0 ?k"
  have d': "scan (Suc 0) [] 0 ?k = replicate 2147483648 0" using scan_single [of "[]" ?k] by simp
  then have d: "?d = replicate 2147483648 0" by simp
  have r: "route 1 ?k [] =
       Inr (?d, (alloc_shuffle_metadata ?k 1)\<lparr>send_counts := fold bump ?d (replicate 1 0)\<rparr>)"
    by (rule route_eq) simp_all
  have "fold bump ?d (replicate 1 0) ! 0 = int32 (replicate 1 0 ! 0 + int (count_list ?d 0))"
    by (rule fold_bump_nth) (simp_all add: d' int32_def)
  moreover have "count_list ?d 0 = 2147483648" unfolding d by (rule count_list_replicate_same)
  ultimately have "fold bump ?d (replicate 1 0) ! 0 = - 2147483648" by (simp add: int32_def)
  moreover have "length (fold bump ?d (replicate 1 0)) = 1" by simp
  ultimately have "fold bump ?d (replicate 1 0) = [- 2147483648]"
    using list_of_length_one [of "fold bump ?d (replicate 1 0)"] by simp
  then show ?thesis unfolding r using d by simp
qed

text \<open>
  Claim C10.  The destinations the routing loop hands out are non-decreasing in the row
  index and grow by at most one from a row to the next; the destinations of a prefix of
  the local array are the prefix of the destinations (a row's destination is a function
  of the keys up to it); and the rows of one destination are contiguous.
\<close>

theorem route_destinations_only_advance:
  assumes "0 < n_pes" and "length bounds = n_pes - 1"
  shows "\<exists>dests m. route n_pes key_arr bounds = Inr (dests, m) \<and>
     length dests = length key_arr \<and>
     sorted dests \<and>
     (\<forall>i. Suc i < length dests \<longrightarrow> dests ! Suc i \<le> Suc (dests ! i)) \<and>
     (\<forall>n. \<exists>m'. route n_pes (take n key_arr) bounds = Inr (take n dests, m')) \<and>
     (\<forall>i j k. i \<le> j \<and> j \<le> k \<and> k < length dests \<and> dests ! i = dests ! k
        \<longrightarrow> dests ! j = dests ! i)"
proof -
  let ?d = "scan n_pes bounds 0 key_arr"
  let ?m = "(alloc_shuffle_metadata key_arr n_pes)\<lparr>send_counts := fold bump ?d (replicate n_pes 0)\<rparr>"
  have r: "route n_pes key_arr bounds = Inr (?d, ?m)"
    by (rule route_eq [OF assms])
  have s: "sorted ?d" using sorted_scan [OF assms(1), of bounds key_arr] by simp
  have st: "\<forall>i. Suc i < length ?d \<longrightarrow> ?d ! Suc i \<le> Suc (?d ! i)"
    using scan_step_le [of _ key_arr n_pes bounds 0] by simp
  have p: "\<forall>n. \<exists>m'. route n_pes (take n key_arr) bounds = Inr (take n ?d, m')"
    using route_eq [OF assms, of "take _ key_arr"] by (simp add: scan_take)
  have c: "\<forall>i j k. i \<le> j \<and> j \<le> k \<and> k < length ?d \<and> ?d ! i = ?d ! k \<longrightarrow> ?d ! j = ?d ! i"
  proof (intro allI impI)
    fix i j k assume a: "i \<le> j \<and> j \<le> k \<and> k < length ?d \<and> ?d ! i = ?d ! k"
    then have ij: "i \<le> j" and jk: "j \<le> k" and k: "k < length ?d" and e: "?d ! i = ?d ! k"
      by blast+
    have "?d ! i \<le> ?d ! j" using ij jk k by (intro sorted_nth_mono [OF s]) simp_all
    moreover have "?d ! j \<le> ?d ! k" by (rule sorted_nth_mono [OF s jk k])
    ultimately show "?d ! j = ?d ! i" using e by simp
  qed
  have l: "length ?d = length key_arr" by simp
  show ?thesis
    by (intro exI [of _ ?d] exI [of _ ?m] conjI) (rule r l s st p c)+
qed

text \<open>Claim C10 at three workers, boundaries \<open>[3, 8]\<close>, local keys \<open>[5, 1, 9]\<close>.\<close>

theorem route_destinations_only_advance_witness:
  "(0::nat) < 3 \<and> length [3, 8::int] = 3 - 1 \<and>
   (\<exists>m. route 3 [5, 1, 9::int] [3, 8] = Inr ([1, 1, 2], m)) \<and> sorted [1, 1, 2::nat]"
proof -
  have h: "(0::nat) < 3" "length [3, 8::int] = 3 - 1" by simp_all
  from route_destinations_only_advance [OF h, of "[5, 1, 9]"] obtain dests m where
    r: "route 3 [5, 1, 9::int] [3, 8] = Inr (dests, m)" and s: "sorted dests"
    by blast
  have e: "scan 3 [3, 8] 0 [5, 1, 9::int] = [1, 1, 2]"
    by (simp add: Let_def)
  have d: "dests = [1, 1, 2]"
    using r route_eq [OF h, of "[5, 1, 9]"] unfolding e by simp
  with r s show ?thesis by simp
qed

text \<open>
  Claim C1 fails on the code.  Three workers hold the locally sorted keys \<open>[0, 0, 0]\<close>,
  \<open>[1, 2]\<close> and \<open>[5]\<close>.  Every worker samples all its rows, so whatever the draws
  the boundaries are \<open>0\<close> and \<open>b\<close> with \<open>b\<close> one of \<open>1\<close> and \<open>2\<close>.  Both
  are at or below the key \<open>5\<close> of the last worker, but the loop advances \<open>node_id\<close>
  at most once per row: the router gives the key destination \<open>1\<close>, not \<open>2\<close>.
\<close>

theorem route_stops_after_one_boundary:
  "list_all sorted [[0, 0, 0], [1, 2], [5::int]] \<and>
   (\<exists>samples bounds m.
      mapE (\<lambda>my_rank. sampler (g my_rank) 3 6 ([[0, 0, 0], [1, 2], [5::int]] ! my_rank)) [0..<3]
        = Inr samples \<and>
      bounds_coordinator mem 3 samples = Inr [bounds, bounds, bounds] \<and>
      route 3 ([[0, 0, 0], [1, 2], [5::int]] ! 2) bounds = Inr ([1], m) \<and>
      map (upper_bound bounds) ([[0, 0, 0], [1, 2], [5::int]] ! 2) = [2])"
proof -
  let ?ks = "[[0, 0, 0], [1, 2], [5::int]]"
  let ?samples = "map (\<lambda>r. samples_of (g r) 3 6 (?ks ! r)) [0..<3]"
  from three_worker_bounds [of mem g] obtain b where
    b: "b = 1 \<or> b = 2" and rb: "root_bounds mem 3 (all_samples_of g ?ks) = Inr [0, b]"
    by blast
  from route_one_row [OF b] obtain m where
    rt: "route 3 [5::int] [0, b] = Inr ([1], m)" and ub: "upper_bound [0, b] (5::int) = 2"
    by blast
  have lk: "length ?ks = 3" by simp
  have tk: "sum_list (map length ?ks) = 6" by simp
  have sm: "mapE (\<lambda>my_rank. sampler (g my_rank) 3 6 (?ks ! my_rank)) [0..<3] = Inr ?samples"
    by (rule sampler_stage)
  have gs: "gatherv ?samples = all_samples_of g ?ks"
    unfolding all_samples_of_def lk tk gatherv_def ..
  have rep: "replicate 3 x = [x, x, x]" for x :: "int list"
    by (simp add: numeral_3_eq_3)
  have bc: "bounds_coordinator mem 3 ?samples = Inr [[0, b], [0, b], [0, b]]"
    by (simp only: bounds_coordinator_def gs rb bindE_Inr bcast_def rep)
  have k2: "?ks ! 2 = [5]" by simp
  have so: "list_all sorted ?ks" by simp
  have r1: "route 3 (?ks ! 2) [0, b] = Inr ([1], m)" unfolding k2 by (rule rt)
  have r2: "map (upper_bound [0, b]) (?ks ! 2) = [2]" unfolding k2 using ub by simp
  show ?thesis
    by (intro conjI exI [of _ ?samples] exI [of _ "[0, b]"] exI [of _ m]) (rule so sm bc r1 r2)+
qed

section \<open>The orchestrator and the collectives of a run\<close>

lemma snd_bindT: "snd (bindT m f) = bindE (snd m) (\<lambda>x. snd (f x))"
  by (simp add: bindT_def bindE_def split: sum.splits)

lemma snd_collective_call [simp]: "snd (collective_call c r) = r"
  by (simp add: collective_call_def)

lemma snd_local_step [simp]: "snd (local_step r) = r"
  by (simp add: local_step_def)

lemma fst_collective_call [simp]: "fst (collective_call c r) = [c]"
  by (simp add: collective_call_def)

lemma fst_local_step [simp]: "fst (local_step r) = []"
  by (simp add: local_step_def)

lemma bindT_success:
  assumes "snd (bindT m f) = Inr y"
  obtains x where "snd m = Inr x" and "snd (f x) = Inr y" and "fst (bindT m f) = fst m @ fst (f x)"
  using assms by (cases "snd m") (simp_all add: bindT_def)

lemma fst_bindT_Inr: "snd m = Inr x \<Longrightarrow> fst (bindT m f) = fst m @ fst (f x)"
  by (simp add: bindT_def)

lemma finalize_shuffle_meta_trace:
  "snd (finalize_shuffle_meta arrs metas) = Inr ms \<Longrightarrow> fst (finalize_shuffle_meta arrs metas) = [Alltoall]"
  unfolding finalize_shuffle_meta_def
  by (erule bindT_success) simp

lemma alltoallv_trace:
  "snd (alltoallv arrs metas) = Inr ms \<Longrightarrow> fst (alltoallv arrs metas) = [Alltoallv]"
  unfolding alltoallv_def
  by (erule bindT_success) simp

lemma parallel_sort_trace:
  assumes "snd (parallel_sort mem g cluster) = Inr outs"
  shows "fst (parallel_sort mem g cluster) = [Dist_reduce, Gatherv, Bcast, Alltoall, Alltoallv, Alltoallv_tup]"
  using assms unfolding parallel_sort_def Let_def
  apply (elim bindT_success)
  apply (simp add: finalize_shuffle_meta_trace alltoallv_trace)
  done

lemma bindT_local_step [simp]: "bindT (local_step (Inr x)) f = f x"
  by (simp add: bindT_def local_step_def)

lemma bindT_return [simp]: "bindT m (\<lambda>x. local_step (Inr x)) = m"
  by (cases m; cases "snd m") (simp_all add: bindT_def local_step_def)

lemma run_nodes_Nil [simp]: "run_nodes mem g [] = (\<lambda>cluster. local_step (Inr cluster))"
  by (rule ext) simp

lemma not_partitioned_iff: "(d \<noteq> OneD \<and> d \<noteq> OneD_Var) = (d = REP)"
  by (cases d) simp_all

lemma fold_parallel:
  "fold (\<lambda>d parallel. if d \<noteq> OneD \<and> d \<noteq> OneD_Var then False else parallel) dists b
     = (b \<and> REP \<notin> set dists)"
  by (induction dists arbitrary: b) (auto simp: not_partitioned_iff)

lemma min_dist_REP: "(min_dist a b = REP) = (a = REP \<or> b = REP)"
  by (cases a; cases b) (simp_all add: min_dist_def)

lemma fold_min_dist_REP:
  "(fold (\<lambda>d in_dist. min_dist in_dist d) ds a = REP) = (a = REP \<or> REP \<in> set ds)"
  by (induction ds arbitrary: a) (auto simp: min_dist_REP)

lemma common_dist_REP:
  "(common_dist key_dist col_dists = REP) = (REP \<in> set (key_dist # col_dists))"
  by (auto simp: common_dist_def fold_min_dist_REP)

lemma fold_upd_map:
  "fold (\<lambda>v m. m(v \<mapsto> x)) vs m0 v = (if v \<in> set vs then Some x else m0 v)"
  by (induction vs arbitrary: m0) auto

lemma parallel_sort_calls_first: "fst (parallel_sort mem g cluster) \<noteq> []"
  by (simp add: parallel_sort_def Let_def bindT_def collective_call_def)

lemma par_sort_impl_calls: "fst (par_sort_impl mem g cluster) \<noteq> []"
  using parallel_sort_calls_first [of mem g cluster]
  by (simp add: par_sort_impl_def bindT_def split: sum.splits)

lemma par_sort_impl_trace:
  assumes "snd (par_sort_impl mem g cluster) = Inr outs"
  shows "fst (par_sort_impl mem g cluster) = [Dist_reduce, Gatherv, Bcast, Alltoall, Alltoallv, Alltoallv_tup]"
  using assms unfolding par_sort_impl_def
  by (elim bindT_success) (simp add: parallel_sort_trace)

lemma sort_impl_empty [simp]: "sort_impl ([], []) = ([], [])"
  by (simp add: sort_impl_def timsort_sort_def)

lemma sampler_empty [simp]: "sampler g n_pes n_total [] = Inr []"
  using n_loc_samples_range [of n_pes n_total 0] by (simp add: sampler_total)

section \<open>The shuffle\<close>

lemma sum_list_take_nth_le:
  "r < length (cs::nat list) \<Longrightarrow> sum_list (take r cs) + cs ! r \<le> sum_list cs"
proof -
  assume r: "r < length cs"
  have "sum_list (take (Suc r) cs) \<le> sum_list (take (Suc r) cs) + sum_list (drop (Suc r) cs)"
    by simp
  also have "\<dots> = sum_list cs"
    by (metis append_take_drop_id sum_list_append)
  finally show ?thesis using r by (simp add: take_Suc_conv_app_nth)
qed

lemma slice_nat:
  "d + c \<le> length buf \<Longrightarrow> slice buf (int d) (int c) = Inr (take c (drop d buf))"
  by (simp add: slice_def)

lemma write_at_append:
  "write_at (map Some done @ replicate (length seg + rest) None) (int (length done)) seg
     = Inr (map Some (done @ seg) @ replicate rest None)"
  by (simp add: write_at_def replicate_add)

lemma sent_segment_planned:
  assumes "s < length cm" and "r < length cm" and "length (cm ! s) = length cm"
    and "sum_list (cm ! s) \<le> length (bufs ! s)"
  shows "sent_segment (map (planned_call cm bufs) [0..<length cm]) r s = Inr (segment_of cm bufs r s)"
proof -
  have "sum_list (take r (cm ! s)) + cm ! s ! r \<le> length (bufs ! s)"
    using sum_list_take_nth_le [of r "cm ! s"] assms by simp
  then show ?thesis
    using assms(1-3)
    by (simp add: sent_segment_def planned_call_def py_index_nat slice_nat segment_of_def)
qed

lemma length_segment_of:
  assumes "r < length (cm ! s)" and "sum_list (cm ! s) \<le> length (bufs ! s)"
  shows "length (segment_of cm bufs r s) = cm ! s ! r"
  using sum_list_take_nth_le [OF assms(1)] assms(2) by (simp add: segment_of_def)

lemma length_concat_segments:
  assumes "\<forall>s<length cm. length (cm ! s) = length cm \<and> sum_list (cm ! s) \<le> length (bufs ! s)"
    and "r < length cm" and "k \<le> length cm"
  shows "length (concat (map (segment_of cm bufs r) [0..<k]))
           = sum_list (map (\<lambda>s. cm ! s ! r) [0..<k])"
  using assms(3)
proof (induction k)
  case 0
  then show ?case by simp
next
  case (Suc k)
  then have "length (segment_of cm bufs r k) = cm ! k ! r"
    using assms(1,2) by (intro length_segment_of) simp_all
  with Suc show ?case by simp
qed

lemma receive_all_planned:
  assumes wf: "\<forall>s<length cm. length (cm ! s) = length cm \<and> sum_list (cm ! s) \<le> length (bufs ! s)"
    and r: "r < length cm"
  shows "k \<le> length cm \<Longrightarrow>
     receive_all (map (planned_call cm bufs) [0..<length cm]) r [k..<length cm]
       (map Some (concat (map (segment_of cm bufs r) [0..<k]))
          @ replicate (sum_list (map (\<lambda>s. cm ! s ! r) [k..<length cm])) None)
     = Inr (map Some (concat (map (segment_of cm bufs r) [0..<length cm])))"
proof (induction k rule: inc_induct)
  case base
  then show ?case by simp
next
  case (step k)
  let ?calls = "map (planned_call cm bufs) [0..<length cm]"
  let ?done = "concat (map (segment_of cm bufs r) [0..<k])"
  let ?seg = "segment_of cm bufs r k"
  let ?rest = "sum_list (map (\<lambda>s. cm ! s ! r) [Suc k..<length cm])"
  have k: "k < length cm" by (rule step.hyps)
  have up: "[k..<length cm] = k # [Suc k..<length cm]" using k by (simp add: upt_rec)
  have seg: "sent_segment ?calls r k = Inr ?seg"
    using wf k r by (intro sent_segment_planned) simp_all
  have lseg: "length ?seg = cm ! k ! r"
    using wf k r by (intro length_segment_of) simp_all
  have ldone: "length ?done = sum_list (map (\<lambda>s. cm ! s ! r) [0..<k])"
    using k by (intro length_concat_segments [OF wf r]) simp
  have rc: "py_index (recvcounts (?calls ! r)) (int k) = Inr (int (cm ! k ! r))"
    using k r by (simp add: planned_call_def py_index_nat)
  have rd: "py_index (rdispls (?calls ! r)) (int k) = Inr (int (length ?done))"
    using k r by (simp add: planned_call_def py_index_nat ldone)
  have w: "write_at (map Some ?done @ replicate (sum_list (map (\<lambda>s. cm ! s ! r) [k..<length cm])) None)
             (int (length ?done)) ?seg
           = Inr (map Some (?done @ ?seg) @ replicate ?rest None)"
    unfolding up using write_at_append [of "?done" "?seg" "?rest"] by (simp add: lseg)
  have nxt: "?done @ ?seg = concat (map (segment_of cm bufs r) [0..<Suc k])" by simp
  show ?case
    apply (subst up)
    apply (simp only: receive_all.simps seg rc rd bindE_Inr lseg if_False simp_thms w nxt)
    apply (rule step.IH)
    done
qed

lemma mpi_alltoallv_planned:
  assumes wf: "\<forall>s<length cm. length (cm ! s) = length cm \<and> sum_list (cm ! s) \<le> length (bufs ! s)"
  shows "mpi_alltoallv (map (planned_call cm bufs) [0..<length cm])
           = Inr (map (\<lambda>r. map Some (exchanged cm bufs r)) [0..<length cm])"
proof -
  have "receive_all (map (planned_call cm bufs) [0..<length cm]) r [0..<length cm]
          (recvbuf (map (planned_call cm bufs) [0..<length cm] ! r))
        = Inr (map Some (exchanged cm bufs r))" if "r \<in> set [0..<length cm]" for r
  proof -
    have r: "r < length cm" using that by simp
    show ?thesis
      using receive_all_planned [OF wf r, of 0] r
      by (simp add: planned_call_def exchanged_def)
  qed
  then show ?thesis unfolding mpi_alltoallv_def length_map length_upt minus_nat.diff_0
    by (rule mapE_cong_Inr)
qed

lemma calc_disp_from_nat:
  "int a + int (sum_list cs) < 2147483648 \<Longrightarrow>
     calc_disp_from (int a) (map int cs) = map (\<lambda>i. int (a + sum_list (take i cs))) [0..<length cs]"
proof (induction cs arbitrary: a)
  case Nil
  then show ?case by simp
next
  case (Cons c cs)
  have w: "int32 (int a + int c) = int (a + c)"
    using Cons.prems by (intro trans [OF int32_id]) simp_all
  have "calc_disp_from (int (a + c)) (map int cs)
          = map (\<lambda>i. int (a + c + sum_list (take i cs))) [0..<length cs]"
    using Cons.prems by (intro Cons.IH) simp
  then show ?case
    by (simp add: w upt_conv_Cons map_Suc_upt [symmetric] add.assoc del: upt_Suc of_nat_add)
qed

lemma calc_disp_nat:
  "int (sum_list cs) < 2147483648 \<Longrightarrow>
     calc_disp (map int cs) = map (\<lambda>i. int (sum_list (take i cs))) [0..<length cs]"
  using calc_disp_from_nat [of 0 cs] by (simp add: calc_disp_def)

lemma sum_list_map_int: "sum_list (map int cs) = int (sum_list cs)"
  by (induction cs) simp_all

lemma alltoall_matrix:
  assumes "\<forall>s<length cm. length (cm ! s) = length cm"
  shows "alltoall (map (\<lambda>r. map int (cm ! r)) [0..<length cm])
           = Inr (map (\<lambda>r. map (\<lambda>s. int (cm ! s ! r)) [0..<length cm]) [0..<length cm])"
proof -
  have inner: "mapE (\<lambda>s. py_index (map (\<lambda>r. map int (cm ! r)) [0..<length cm] ! s) (int r)) [0..<length cm]
         = Inr (map (\<lambda>s. int (cm ! s ! r)) [0..<length cm])" if "r \<in> set [0..<length cm]" for r
    by (rule mapE_cong_Inr) (use assms that in \<open>simp add: py_index_nat\<close>)
  show ?thesis unfolding alltoall_def length_map length_upt minus_nat.diff_0
    by (rule mapE_cong_Inr) (rule inner)
qed

lemma finalize_impl_planned:
  assumes "r < length cm" and "length (cm ! r) = length cm"
    and "int (sum_list (cm ! r)) < 2147483648"
    and "int (sum_list (map (\<lambda>s. cm ! s ! r) [0..<length cm])) < 2147483648"
  shows "finalize_impl arr ((alloc_shuffle_metadata arr' n_pes)\<lparr>send_counts := map int (cm ! r)\<rparr>)
           (map (\<lambda>s. int (cm ! s ! r)) [0..<length cm])
         = Inr (final_meta cm r)"
proof -
  let ?col = "map (\<lambda>s. cm ! s ! r) [0..<length cm]"
  have c: "map (\<lambda>s. int (cm ! s ! r)) [0..<length cm] = map int ?col" by simp
  have s: "sum_list (map (\<lambda>s. int (cm ! s ! r)) [0..<length cm]) = int (sum_list ?col)"
    unfolding c by (rule sum_list_map_int)
  have d1: "calc_disp (map int (cm ! r)) = map (\<lambda>i. int (sum_list (take i (cm ! r)))) [0..<length cm]"
    using calc_disp_nat [OF assms(3)] assms(2) by simp
  have d2: "calc_disp (map (\<lambda>s. int (cm ! s ! r)) [0..<length cm])
             = map (\<lambda>s. int (sum_list (map (\<lambda>s'. cm ! s' ! r) [0..<s]))) [0..<length cm]"
    unfolding c using calc_disp_nat [OF assms(4)] by (simp add: take_map cong: map_cong)
  show ?thesis
    by (simp add: finalize_impl_def Let_def s d1 d2 final_meta_def alloc_shuffle_metadata_def)
qed

lemma wf_countsD:
  assumes "wf_counts cm n_locals" and "s < length cm"
  shows "length (cm ! s) = length cm" and "sum_list (cm ! s) = n_locals ! s"
    and "length n_locals = length cm" and "sum_list n_locals < 2147483648"
  using assms by (simp_all add: wf_counts_def list_all_iff)

lemma nth_le_sum_list: "i < length (xs::nat list) \<Longrightarrow> xs ! i \<le> sum_list xs"
  by (induction xs arbitrary: i) (auto simp: nth_Cons split: nat.splits intro: trans_le_add2)

lemma sum_list_upt_mono:
  "(\<And>s. s < n \<Longrightarrow> f s \<le> (g s::nat)) \<Longrightarrow> sum_list (map f [0..<n]) \<le> sum_list (map g [0..<n])"
  by (induction n) (simp_all add: add_mono)

lemma wf_counts_row_small:
  assumes "wf_counts cm n_locals" and "s < length cm"
  shows "int (sum_list (cm ! s)) < 2147483648"
proof -
  have "n_locals ! s \<le> sum_list n_locals"
    using assms by (intro nth_le_sum_list) (simp add: wf_countsD)
  then show ?thesis using wf_countsD(2,4) [OF assms] by simp
qed

lemma wf_counts_column_small:
  assumes "wf_counts cm n_locals" and "r < length cm"
  shows "int (sum_list (map (\<lambda>s. cm ! s ! r) [0..<length cm])) < 2147483648"
proof -
  have "cm ! s ! r \<le> n_locals ! s" if "s < length cm" for s
  proof -
    have "cm ! s ! r \<le> sum_list (cm ! s)"
      using assms that by (intro nth_le_sum_list) (simp add: wf_countsD)
    then show ?thesis using wf_countsD(2) [OF assms(1) that] by simp
  qed
  then have "sum_list (map (\<lambda>s. cm ! s ! r) [0..<length cm]) \<le> sum_list (map (\<lambda>s. n_locals ! s) [0..<length cm])"
    by (rule sum_list_upt_mono)
  also have "map (\<lambda>s. n_locals ! s) [0..<length cm] = n_locals"
    using wf_countsD(3) [OF assms] map_nth [of n_locals] by metis
  finally show ?thesis using wf_countsD(4) [OF assms] by simp
qed

lemma finalize_shuffle_meta_planned:
  assumes wf: "wf_counts cm n_locals"
    and metas: "metas = map (\<lambda>r. (alloc_shuffle_metadata (arrs ! r) n_pes)\<lparr>send_counts := map int (cm ! r)\<rparr>)
                          [0..<length cm]"
  shows "snd (finalize_shuffle_meta arrs metas) = Inr (map (final_meta cm) [0..<length cm])"
proof -
  have sc: "map send_counts metas = map (\<lambda>r. map int (cm ! r)) [0..<length cm]"
    unfolding metas by simp
  have a: "alltoall (map send_counts metas)
          = Inr (map (\<lambda>r. map (\<lambda>s. int (cm ! s ! r)) [0..<length cm]) [0..<length cm])"
    unfolding sc by (rule alltoall_matrix) (use wf in \<open>simp add: wf_countsD\<close>)
  have l: "length metas = length cm" unfolding metas by simp
  have f: "finalize_impl (arrs ! r) (metas ! r)
             (map (\<lambda>r. map (\<lambda>s. int (cm ! s ! r)) [0..<length cm]) [0..<length cm] ! r)
           = Inr (final_meta cm r)" if "r \<in> set [0..<length cm]" for r
  proof -
    have r: "r < length cm" using that by simp
    have "finalize_impl (arrs ! r) ((alloc_shuffle_metadata (arrs ! r) n_pes)\<lparr>send_counts := map int (cm ! r)\<rparr>)
           (map (\<lambda>s. int (cm ! s ! r)) [0..<length cm]) = Inr (final_meta cm r)"
      by (rule finalize_impl_planned [OF r wf_countsD(1) [OF wf r] wf_counts_row_small [OF wf r]
            wf_counts_column_small [OF wf r]])
    then show ?thesis using r unfolding metas by simp
  qed
  have "mapE (\<lambda>r. finalize_impl (arrs ! r) (metas ! r)
                (map (\<lambda>r. map (\<lambda>s. int (cm ! s ! r)) [0..<length cm]) [0..<length cm] ! r))
          [0..<length cm] = Inr (map (final_meta cm) [0..<length cm])"
    by (rule mapE_cong_Inr) (rule f)
  then show ?thesis
    by (simp add: finalize_shuffle_meta_def snd_bindT a l)
qed

lemma alltoallv_planned:
  assumes wf: "wf_counts cm (map length arrs)"
  shows "snd (alltoallv arrs (map (final_meta cm) [0..<length cm]))
           = Inr (map (\<lambda>r. (final_meta cm r)\<lparr>out_arr := map Some (exchanged cm arrs r)\<rparr>)
                    [0..<length cm])"
proof -
  let ?metas = "map (final_meta cm) [0..<length cm] :: 'a ShuffleMeta list"
  have calls: "map (\<lambda>r. \<lparr>sendbuf = arrs ! r, recvbuf = out_arr (?metas ! r),
                             sendcounts = send_counts (?metas ! r),
                             recvcounts = recv_counts (?metas ! r),
                             sdispls = send_disp (?metas ! r),
                             rdispls = recv_disp (?metas ! r)\<rparr>) [0..<length cm]
               = map (planned_call cm arrs) [0..<length cm]"
    by (rule map_cong [OF refl]) (simp add: final_meta_def planned_call_def)
  have m: "mpi_alltoallv (map (planned_call cm arrs) [0..<length cm])
             = Inr (map (\<lambda>r. map Some (exchanged cm arrs r)) [0..<length cm])"
  proof (rule mpi_alltoallv_planned, intro allI impI)
    fix s assume s: "s < length cm"
    have "length arrs = length cm" using wf_countsD(3) [OF wf s] by simp
    then show "length (cm ! s) = length cm \<and> sum_list (cm ! s) \<le> length (arrs ! s)"
      using wf_countsD(1,2) [OF wf s] s by simp
  qed
  have "Inr (map (\<lambda>r. (?metas ! r)\<lparr>out_arr := map (\<lambda>r. map Some (exchanged cm arrs r)) [0..<length cm] ! r\<rparr>)
                [0..<length cm])
        = (Inr (map (\<lambda>r. (final_meta cm r)\<lparr>out_arr := map Some (exchanged cm arrs r)\<rparr>)
                    [0..<length cm]) :: error + 'a ShuffleMeta list)"
    by simp
  then show ?thesis
    by (simp add: alltoallv_def snd_bindT calls m del: upt_Suc)
qed

lemma alignedD:
  assumes "aligned n_cols t"
  shows "length (snd t) = n_cols" and "c < n_cols \<Longrightarrow> length (snd t ! c) = length (fst t)"
  using assms by (auto simp: aligned_def list_all_length)

lemma read_all_Some [simp]: "read_all (map Some xs) = Inr xs"
  by (induction xs) (simp_all add: read_all_def)

lemma mapE_read_all_Some: "mapE read_all (map (\<lambda>c. map Some (f c)) cs) = Inr (map f cs)"
  by (induction cs) simp_all

lemma alltoallv_tup_planned:
  assumes wf: "wf_counts cm (map (\<lambda>t. length (fst t)) cluster)"
    and ne: "cluster \<noteq> []"
    and al: "list_all (aligned n_cols) cluster"
    and sc: "send_countss = map (\<lambda>r. map int (cm ! r)) [0..<length cm]"
    and rc: "recv_countss = map (\<lambda>r. map (\<lambda>s. int (cm ! s ! r)) [0..<length cm]) [0..<length cm]"
    and sd: "send_disps = map (\<lambda>r. map (\<lambda>i. int (sum_list (take i (cm ! r)))) [0..<length cm]) [0..<length cm]"
    and rd: "recv_disps = map (\<lambda>r. map (\<lambda>s. int (sum_list (map (\<lambda>s'. cm ! s' ! r) [0..<s]))) [0..<length cm])
                             [0..<length cm]"
    and od: "out_datas = map (\<lambda>r. map (\<lambda>col. replicate (sum_list (map (\<lambda>s. cm ! s ! r) [0..<length cm])) None)
                                     (snd (cluster ! r))) [0..<length cm]"
  shows "alltoallv_tup (map snd cluster) out_datas send_countss recv_countss send_disps recv_disps
           = Inr (map (\<lambda>r. map (\<lambda>c. map Some (exchanged cm (column cluster c) r)) [0..<n_cols])
                    [0..<length cm])"
proof -
  have P: "length cluster = length cm"
    using wf by (simp add: wf_counts_def)
  have pos: "0 < length cm" using ne P by (cases cluster) auto
  have alr: "aligned n_cols (cluster ! r)" if "r < length cm" for r
    using al that P by (simp add: list_all_length)
  have nc: "(case map snd cluster of [] \<Rightarrow> 0 | data # _ \<Rightarrow> length data) = n_cols"
    using ne al by (cases cluster) (simp_all add: aligned_def)
  have chk: "list_all (\<lambda>data. length data = n_cols) (map snd cluster)"
    using al by (simp add: list_all_iff aligned_def)
  have one: "mpi_alltoallv
               (map (\<lambda>r. \<lparr>sendbuf = map snd cluster ! r ! c, recvbuf = out_datas ! r ! c,
                           sendcounts = send_countss ! r, recvcounts = recv_countss ! r,
                           sdispls = send_disps ! r, rdispls = recv_disps ! r\<rparr>)
                    [0..<length cm])
             = Inr (map (\<lambda>r. map Some (exchanged cm (column cluster c) r)) [0..<length cm])"
    if "c \<in> set [0..<n_cols]" for c
  proof -
    have c: "c < n_cols" using that by simp
    have calls: "map (\<lambda>r. \<lparr>sendbuf = map snd cluster ! r ! c, recvbuf = out_datas ! r ! c,
                           sendcounts = send_countss ! r, recvcounts = recv_countss ! r,
                           sdispls = send_disps ! r, rdispls = recv_disps ! r\<rparr>)
                    [0..<length cm]
                 = map (planned_call cm (column cluster c)) [0..<length cm]"
    proof (rule map_cong [OF refl])
      fix r assume "r \<in> set [0..<length cm]"
      then have r: "r < length cm" by simp
      have "c < length (snd (cluster ! r))" using alignedD(1) [OF alr [OF r]] c by simp
      then show "\<lparr>sendbuf = map snd cluster ! r ! c, recvbuf = out_datas ! r ! c,
                           sendcounts = send_countss ! r, recvcounts = recv_countss ! r,
                           sdispls = send_disps ! r, rdispls = recv_disps ! r\<rparr>
                 = planned_call cm (column cluster c) r"
        using r P by (simp add: planned_call_def column_def sc rc sd rd od)
    qed
    have "mpi_alltoallv (map (planned_call cm (column cluster c)) [0..<length cm])
            = Inr (map (\<lambda>r. map Some (exchanged cm (column cluster c) r)) [0..<length cm])"
    proof (rule mpi_alltoallv_planned, intro allI impI)
      fix s assume s: "s < length cm"
      have "length (column cluster c ! s) = length (fst (cluster ! s))"
        using alignedD(2) [OF alr [OF s] c] s P by (simp add: column_def)
      moreover have "sum_list (cm ! s) = length (fst (cluster ! s))"
        using wf_countsD(2) [OF wf s] s P by simp
      ultimately show "length (cm ! s) = length cm \<and> sum_list (cm ! s) \<le> length (column cluster c ! s)"
        using wf_countsD(1) [OF wf s] by simp
    qed
    then show ?thesis unfolding calls .
  qed
  have all: "mapE (\<lambda>c. mpi_alltoallv
               (map (\<lambda>r. \<lparr>sendbuf = map snd cluster ! r ! c, recvbuf = out_datas ! r ! c,
                           sendcounts = send_countss ! r, recvcounts = recv_countss ! r,
                           sdispls = send_disps ! r, rdispls = recv_disps ! r\<rparr>)
                    [0..<length cm])) [0..<n_cols]
             = Inr (map (\<lambda>c. map (\<lambda>r. map Some (exchanged cm (column cluster c) r)) [0..<length cm])
                      [0..<n_cols])"
    by (rule mapE_cong_Inr) (rule one)
  have tr: "map (\<lambda>r. map (\<lambda>col. col ! r)
                        (map (\<lambda>c. map (\<lambda>r. map Some (exchanged cm (column cluster c) r)) [0..<length cm])
                           [0..<n_cols])) [0..<length cm]
            = map (\<lambda>r. map (\<lambda>c. map Some (exchanged cm (column cluster c) r)) [0..<n_cols])
                    [0..<length cm]"
    by (rule map_cong [OF refl]) simp
  show ?thesis
    unfolding alltoallv_tup_def Let_def length_map P nc
    using chk by (simp only: simp_thms if_False all bindE_Inr tr)
qed

lemma root_bounds_length: "root_bounds mem n_pes xs = Inr bounds \<Longrightarrow> length bounds = n_pes - 1"
  by (auto simp: root_bounds_def step_of_def Let_def split: if_splits)

lemma length_count_matrix [simp]: "length (count_matrix n_pes bounds key_arrs) = length key_arrs"
  by (simp add: count_matrix_def)

lemma wf_count_matrix:
  assumes "0 < length key_arrs" and "sum_list (map length key_arrs) < 2147483648"
  shows "wf_counts (count_matrix (length key_arrs) bounds key_arrs) (map length key_arrs)"
proof -
  have "sum_list (map (count_list (scan (length key_arrs) bounds 0 (key_arrs ! s))) [0..<length key_arrs])
          = length (key_arrs ! s)" for s
    using sum_count_list_upt [of "scan (length key_arrs) bounds 0 (key_arrs ! s)" "length key_arrs"]
      scan_range [OF assms(1), of _ bounds "key_arrs ! s"] by simp
  then show ?thesis using assms(2)
    by (simp add: wf_counts_def list_all_iff count_matrix_def)
qed

lemma route_stage:
  assumes pos: "0 < length key_arrs" and lb: "length bounds = length key_arrs - 1"
    and small: "sum_list (map length key_arrs) < 2147483648"
  shows "mapE (\<lambda>my_rank. route (length key_arrs) (key_arrs ! my_rank)
                           (bcast (length key_arrs) bounds ! my_rank)) [0..<length key_arrs]
         = Inr (map (\<lambda>r. (scan (length key_arrs) bounds 0 (key_arrs ! r),
                          (alloc_shuffle_metadata (key_arrs ! r) (length key_arrs))
                             \<lparr>send_counts := map int (count_matrix (length key_arrs) bounds key_arrs ! r)\<rparr>))
                  [0..<length key_arrs])"
proof (rule mapE_cong_Inr)
  fix r assume "r \<in> set [0..<length key_arrs]"
  then have r: "r < length key_arrs" by simp
  let ?d = "scan (length key_arrs) bounds 0 (key_arrs ! r)"
  have "length (key_arrs ! r) \<le> sum_list (map length key_arrs)"
    using nth_le_sum_list [of r "map length key_arrs"] r by simp
  then have l: "length ?d < 2147483648" using small by simp
  have rng: "\<forall>x\<in>set ?d. x < length key_arrs"
    using scan_range [OF pos] by blast
  have "fold bump ?d (replicate (length key_arrs) 0)
          = map (\<lambda>d. int (count_list ?d d)) [0..<length key_arrs]"
    by (rule send_counts_exact [OF rng l])
  then show "route (length key_arrs) (key_arrs ! r) (bcast (length key_arrs) bounds ! r)
        = Inr (?d, (alloc_shuffle_metadata (key_arrs ! r) (length key_arrs))
                     \<lparr>send_counts := map int (count_matrix (length key_arrs) bounds key_arrs ! r)\<rparr>)"
    using r route_eq [OF pos lb, of "key_arrs ! r"] by (simp add: bcast_def count_matrix_def)
qed

lemma parallel_sort_shuffles:
  assumes ne: "cluster \<noteq> []"
    and al: "list_all (aligned n_cols) cluster"
    and small: "sum_list (map length (map fst cluster)) < 2147483648"
    and rb: "root_bounds mem (length cluster) (all_samples_of g (map fst cluster)) = Inr bounds"
  shows "snd (parallel_sort mem g cluster)
           = Inr (shuffled_tables (count_matrix (length cluster) bounds (map fst cluster)) n_cols cluster)"
proof -
  let ?keys = "map fst cluster"
  let ?P = "length cluster"
  let ?N = "dist_reduce_sum (map length ?keys)"
  let ?cm = "count_matrix ?P bounds ?keys"
  have pos: "0 < length ?keys" using ne by simp
  have lk: "length ?keys = ?P" by simp
  have lcm: "length ?cm = ?P" by simp
  have lb: "length bounds = length ?keys - 1" using root_bounds_length [OF rb] by simp
  have wf: "wf_counts ?cm (map length ?keys)"
    using wf_count_matrix [OF pos small, of bounds] by simp
  have wf': "wf_counts ?cm (map (\<lambda>t. length (fst t)) cluster)"
    using wf by (simp add: o_def)
  have s1: "mapE (\<lambda>my_rank. sampler (g my_rank) ?P ?N (?keys ! my_rank)) [0..<?P]
             = Inr (map (\<lambda>r. samples_of (g r) ?P ?N (?keys ! r)) [0..<?P])"
    by (rule sampler_stage)
  have s2: "gatherv (map (\<lambda>r. samples_of (g r) ?P ?N (?keys ! r)) [0..<?P]) = all_samples_of g ?keys"
    by (simp add: gatherv_def all_samples_of_def dist_reduce_sum_def)
  have s4: "mapE (\<lambda>my_rank. route ?P (?keys ! my_rank) (bcast ?P bounds ! my_rank)) [0..<?P]
         = Inr (map (\<lambda>r. (scan ?P bounds 0 (?keys ! r),
                          (alloc_shuffle_metadata (?keys ! r) ?P)
                             \<lparr>send_counts := map int (?cm ! r)\<rparr>)) [0..<?P])"
    using route_stage [OF pos lb small] by simp
  have s5: "map snd (map (\<lambda>r. (scan ?P bounds 0 (?keys ! r),
                          (alloc_shuffle_metadata (?keys ! r) ?P)
                             \<lparr>send_counts := map int (?cm ! r)\<rparr>)) [0..<?P])
            = map (\<lambda>r. (alloc_shuffle_metadata (?keys ! r) ?P)\<lparr>send_counts := map int (?cm ! r)\<rparr>)
                [0..<length ?cm]"
    by (simp add: o_def)
  have s6: "snd (finalize_shuffle_meta ?keys
                   (map (\<lambda>r. (alloc_shuffle_metadata (?keys ! r) ?P)\<lparr>send_counts := map int (?cm ! r)\<rparr>)
                      [0..<length ?cm]))
            = Inr (map (final_meta ?cm) [0..<length ?cm])"
    by (rule finalize_shuffle_meta_planned [OF wf refl])
  have s7: "snd (alltoallv ?keys (map (final_meta ?cm) [0..<length ?cm]))
           = Inr (map (\<lambda>r. (final_meta ?cm r)\<lparr>out_arr := map Some (exchanged ?cm ?keys r)\<rparr>)
                    [0..<length ?cm])"
    by (rule alltoallv_planned [OF wf])
  let ?sh = "map (\<lambda>r. (final_meta ?cm r)\<lparr>out_arr := map Some (exchanged ?cm ?keys r)\<rparr>)
                    [0..<length ?cm] :: 'a ShuffleMeta list"
  let ?od = "map (\<lambda>r. map (\<lambda>col. replicate (sum_list (map (\<lambda>s. ?cm ! s ! r) [0..<length ?cm])) None)
                                     (snd (cluster ! r))) [0..<length ?cm]"
  have s8: "mapE (\<lambda>my_rank. alloc_arr_tup (n_out (?sh ! my_rank)) (map snd cluster ! my_rank)) [0..<?P]
            = Inr ?od"
    unfolding lcm
    by (rule mapE_cong_Inr) (simp add: alloc_arr_tup_def final_meta_def)
  have s9: "alltoallv_tup (map snd cluster) ?od (map send_counts ?sh) (map recv_counts ?sh)
              (map send_disp ?sh) (map recv_disp ?sh)
           = Inr (map (\<lambda>r. map (\<lambda>c. map Some (exchanged ?cm (column cluster c) r)) [0..<n_cols])
                    [0..<length ?cm])"
    by (rule alltoallv_tup_planned [OF wf' ne al _ _ _ _ refl])
       (simp_all add: final_meta_def o_def)
  have s10: "mapE (\<lambda>my_rank.
                 bindE (read_all (out_arr (?sh ! my_rank)))
                   (\<lambda>out. bindE (mapE read_all
                        (map (\<lambda>r. map (\<lambda>c. map Some (exchanged ?cm (column cluster c) r)) [0..<n_cols])
                    [0..<length ?cm] ! my_rank))
                      (\<lambda>out_data. Inr (out, out_data)))) [0..<?P]
             = Inr (shuffled_tables ?cm n_cols cluster)"
    unfolding shuffled_tables_def
    by (rule mapE_cong_Inr) (simp add: mapE_read_all_Some)
  show ?thesis
    unfolding parallel_sort_def Let_def
    by (simp only: snd_bindT snd_collective_call snd_local_step bindE_Inr
          s1 s2 rb s4 s5 s6 s7 s8 s9 s10)
qed

lemma sort_impl_eq:
  "sort_impl t = (map (\<lambda>i. fst t ! i) (perm_of (fst t)),
                  map (\<lambda>col. map (\<lambda>i. col ! i) (perm_of (fst t))) (snd t))"
  by (cases t) (simp add: sort_impl_def timsort_sort_def perm_of_def Let_def)

lemma length_perm_of [simp]: "length (perm_of key_arr) = length key_arr"
  by (simp add: perm_of_def)

lemma mset_perm_of: "mset (perm_of key_arr) = mset [0..<length key_arr]"
  by (simp add: perm_of_def)

lemma length_fst_sort_impl [simp]: "length (fst (sort_impl t)) = length (fst t)"
  by (simp add: sort_impl_eq)

lemma aligned_sort_impl: "aligned n_cols t \<Longrightarrow> aligned n_cols (sort_impl t)"
  by (simp add: aligned_def sort_impl_eq list_all_iff)

lemma sorted_fst_sort_impl: "sorted (fst (sort_impl t))"
proof -
  have "sorted (map (\<lambda>i. fst t ! i) (sort_key (\<lambda>i. fst t ! i) [0..<length (fst t)]))"
    by (rule sorted_sort_key)
  then show ?thesis by (simp add: sort_impl_eq perm_of_def)
qed

lemma rows_of_sort_impl:
  "rows_of (sort_impl t) = map (\<lambda>i. (fst t ! i, map (\<lambda>col. col ! i) (snd t))) (perm_of (fst t))"
  by (rule nth_equalityI) (simp_all add: rows_of_def sort_impl_eq o_def)

lemma mset_rows_of_sort_impl: "mset (rows_of (sort_impl t)) = mset (rows_of t)"
proof -
  have "mset (rows_of (sort_impl t))
          = image_mset (\<lambda>i. (fst t ! i, map (\<lambda>col. col ! i) (snd t))) (mset (perm_of (fst t)))"
    by (simp add: rows_of_sort_impl)
  also have "\<dots> = mset (rows_of t)"
    by (simp add: mset_perm_of rows_of_def)
  finally show ?thesis .
qed

lemma exchanged_map:
  assumes "length bufs = length cm"
  shows "exchanged cm (map (map f) bufs) r = map f (exchanged cm bufs r)"
proof -
  have seg: "segment_of cm (map (map f) bufs) r s = map f (segment_of cm bufs r s)"
    if "s \<in> set [0..<length cm]" for s
    using that assms by (simp add: segment_of_def take_map drop_map)
  have e: "map (segment_of cm (map (map f) bufs) r) [0..<length cm]
               = map (\<lambda>s. map f (segment_of cm bufs r s)) [0..<length cm]"
    by (rule map_cong [OF refl]) (rule seg)
  show ?thesis
    unfolding exchanged_def e by (simp add: map_concat o_def)
qed

lemma keys_from_tags: "map fst cluster = map (map (key_at cluster)) (tags cluster)"
  by (rule nth_equalityI) (simp_all add: tags_def key_at_def o_def map_nth)

lemma column_from_tags:
  assumes "list_all (aligned n_cols) cluster" and "c < n_cols"
  shows "column cluster c = map (map (value_at cluster c)) (tags cluster)"
proof (rule nth_equalityI)
  show "length (column cluster c) = length (map (map (value_at cluster c)) (tags cluster))"
    by (simp add: column_def tags_def)
next
  fix s assume "s < length (column cluster c)"
  then have s: "s < length cluster" by (simp add: column_def)
  then have "aligned n_cols (cluster ! s)" using assms(1) by (simp add: list_all_length)
  then have "length (snd (cluster ! s) ! c) = length (fst (cluster ! s))"
    using assms(2) by (rule alignedD(2))
  then have "map (\<lambda>i. snd (cluster ! s) ! c ! i) [0..<length (fst (cluster ! s))] = snd (cluster ! s) ! c"
    using map_nth [of "snd (cluster ! s) ! c"] by simp
  then show "column cluster c ! s = map (map (value_at cluster c)) (tags cluster) ! s"
    using s by (simp add: column_def tags_def value_at_def o_def)
qed

lemma rows_from_tags: "map rows_of cluster = map (map (row_at cluster)) (tags cluster)"
  by (rule nth_equalityI) (simp_all add: tags_def row_at_def rows_of_def o_def)

lemma rows_of_shuffled:
  assumes al: "list_all (aligned n_cols) cluster" and l: "length cm = length cluster"
    and r: "r < length cluster"
  shows "rows_of (shuffled_tables cm n_cols cluster ! r) = exchanged cm (map rows_of cluster) r"
proof -
  let ?o = "exchanged cm (tags cluster) r"
  have lt: "length (tags cluster) = length cm" using l by (simp add: tags_def)
  have k: "exchanged cm (map fst cluster) r = map (key_at cluster) ?o"
    unfolding keys_from_tags [of cluster] by (rule exchanged_map [OF lt])
  have c: "exchanged cm (column cluster c) r = map (value_at cluster c) ?o" if "c \<in> set [0..<n_cols]" for c
    using that column_from_tags [OF al, of c] exchanged_map [OF lt, of "value_at cluster c" r] by simp
  have n: "length (snd (cluster ! s)) = n_cols" if "s < length cluster" for s
    using al that by (simp add: list_all_length aligned_def)
  have inr: "fst p < length cluster" if "p \<in> set ?o" for p
  proof -
    from that obtain s where s: "s < length cm" and p: "p \<in> set (segment_of cm (tags cluster) r s)"
      by (auto simp: exchanged_def)
    from p have "p \<in> set (tags cluster ! s)"
      by (auto simp: segment_of_def dest: in_set_takeD in_set_dropD)
    then show ?thesis using s l by (auto simp: tags_def)
  qed
  have "shuffled_tables cm n_cols cluster ! r
          = (map (key_at cluster) ?o, map (\<lambda>c. map (value_at cluster c) ?o) [0..<n_cols])"
    using r k c by (simp add: shuffled_tables_def cong: map_cong)
  then have "rows_of (shuffled_tables cm n_cols cluster ! r)
          = map (\<lambda>i. (key_at cluster (?o ! i), map (\<lambda>c. value_at cluster c (?o ! i)) [0..<n_cols]))
              [0..<length ?o]"
    by (simp add: rows_of_def o_def)
  also have "\<dots> = map (\<lambda>p. (key_at cluster p, map (\<lambda>c. value_at cluster c p) [0..<n_cols])) ?o"
    by (rule nth_equalityI) simp_all
  also have "\<dots> = map (row_at cluster) ?o"
  proof (rule map_cong [OF refl])
    fix p assume "p \<in> set ?o"
    then have "length (snd (cluster ! fst p)) = n_cols" using inr n by blast
    then have "map (\<lambda>c. snd (cluster ! fst p) ! c ! snd p) [0..<n_cols]
                 = map (\<lambda>col. col ! snd p) (snd (cluster ! fst p))"
      by (intro nth_equalityI) simp_all
    then show "(key_at cluster p, map (\<lambda>c. value_at cluster c p) [0..<n_cols]) = row_at cluster p"
      by (simp add: key_at_def value_at_def row_at_def)
  qed
  also have "\<dots> = exchanged cm (map rows_of cluster) r"
    unfolding rows_from_tags [of cluster] by (rule exchanged_map [OF lt, symmetric])
  finally show ?thesis .
qed

lemma segments_tile:
  assumes "k \<le> length (cm ! s)"
  shows "concat (map (\<lambda>r. segment_of cm bufs r s) [0..<k])
           = take (sum_list (take k (cm ! s))) (bufs ! s)"
  using assms
proof (induction k)
  case 0
  then show ?case by simp
next
  case (Suc k)
  then have "take (Suc k) (cm ! s) = take k (cm ! s) @ [cm ! s ! k]"
    by (simp add: take_Suc_conv_app_nth)
  with Suc show ?case
    by (simp add: segment_of_def take_add)
qed

lemma sum_list_mset_swap:
  fixes f :: "nat \<Rightarrow> nat \<Rightarrow> 'a multiset"
  shows "(\<Sum>r\<leftarrow>[0..<m]. \<Sum>s\<leftarrow>[0..<n]. f r s) = (\<Sum>s\<leftarrow>[0..<n]. \<Sum>r\<leftarrow>[0..<m]. f r s)"
  by (simp add: interv_sum_list_conv_sum_set_nat sum.swap [of _ "{0..<n}"])

lemma mset_exchanged:
  assumes l: "length bufs = length cm"
    and wf: "\<forall>s<length cm. length (cm ! s) = length cm \<and> sum_list (cm ! s) = length (bufs ! s)"
  shows "mset (concat (map (exchanged cm bufs) [0..<length cm])) = mset (concat bufs)"
proof -
  have "mset (concat (map (exchanged cm bufs) [0..<length cm]))
          = (\<Sum>r\<leftarrow>[0..<length cm]. \<Sum>s\<leftarrow>[0..<length cm]. mset (segment_of cm bufs r s))"
    by (simp add: mset_concat exchanged_def o_def)
  also have "\<dots> = (\<Sum>s\<leftarrow>[0..<length cm]. \<Sum>r\<leftarrow>[0..<length cm]. mset (segment_of cm bufs r s))"
    by (rule sum_list_mset_swap)
  also have "\<dots> = (\<Sum>s\<leftarrow>[0..<length cm]. mset (bufs ! s))"
  proof (rule arg_cong [where f = sum_list], rule map_cong [OF refl])
    fix s assume "s \<in> set [0..<length cm]"
    then have s: "s < length cm" by simp
    have "(\<Sum>r\<leftarrow>[0..<length cm]. mset (segment_of cm bufs r s))
            = mset (concat (map (\<lambda>r. segment_of cm bufs r s) [0..<length cm]))"
      by (simp add: mset_concat o_def)
    also have "\<dots> = mset (take (sum_list (take (length cm) (cm ! s))) (bufs ! s))"
      using wf s by (subst segments_tile) simp_all
    also have "\<dots> = mset (bufs ! s)" using wf s by simp
    finally show "(\<Sum>r\<leftarrow>[0..<length cm]. mset (segment_of cm bufs r s)) = mset (bufs ! s)" .
  qed
  also have "\<dots> = mset (concat bufs)"
  proof -
    have "map (\<lambda>s. mset (bufs ! s)) [0..<length cm] = map mset (map (\<lambda>s. bufs ! s) [0..<length bufs])"
      using l by (simp add: o_def)
    also have "\<dots> = map mset bufs" by (simp only: map_nth)
    finally show ?thesis by (simp add: mset_concat)
  qed
  finally show ?thesis .
qed

lemma length_shuffled_tables [simp]: "length (shuffled_tables cm n_cols cluster) = length cluster"
  by (simp add: shuffled_tables_def)

lemma shuffled_nth:
  assumes al: "list_all (aligned n_cols) cluster" and l: "length cm = length cluster"
    and r: "r < length cluster"
  shows "shuffled_tables cm n_cols cluster ! r
          = (map (key_at cluster) (exchanged cm (tags cluster) r),
             map (\<lambda>c. map (value_at cluster c) (exchanged cm (tags cluster) r)) [0..<n_cols])"
proof -
  let ?o = "exchanged cm (tags cluster) r"
  have lt: "length (tags cluster) = length cm" using l by (simp add: tags_def)
  have k: "exchanged cm (map fst cluster) r = map (key_at cluster) ?o"
    unfolding keys_from_tags [of cluster] by (rule exchanged_map [OF lt])
  have c: "exchanged cm (column cluster c) r = map (value_at cluster c) ?o" if "c \<in> set [0..<n_cols]" for c
    using that column_from_tags [OF al, of c] exchanged_map [OF lt, of "value_at cluster c" r] by simp
  show ?thesis
    using r k c by (simp add: shuffled_tables_def cong: map_cong)
qed

lemma aligned_shuffled:
  assumes "list_all (aligned n_cols) cluster" and "length cm = length cluster"
  shows "list_all (aligned n_cols) (shuffled_tables cm n_cols cluster)"
proof -
  have "aligned n_cols (shuffled_tables cm n_cols cluster ! r)" if "r < length cluster" for r
    unfolding shuffled_nth [OF assms that] by (simp add: aligned_def list_all_iff)
  then show ?thesis by (simp add: list_all_length shuffled_tables_def del: nth_map)
qed

lemma mset_concat_cong:
  "(\<And>x. x \<in> set xs \<Longrightarrow> mset (f x) = mset (h x)) \<Longrightarrow>
     mset (concat (map f xs)) = mset (concat (map h xs))"
  by (induction xs) simp_all

lemma distributed_sort_eq:
  "distributed_sort mem g cluster =
     bindE (snd (parallel_sort mem g (map sort_impl cluster))) (\<lambda>outs. Inr (map sort_impl outs))"
proof -
  have e: "(\<lambda>t. case t of (out, out_data) \<Rightarrow> timsort_sort out 0 (length out) out_data) = sort_impl"
    by (rule ext) (simp add: sort_impl_def)
  have "distributed_sort mem g cluster = snd (par_sort_impl mem g (map sort_impl cluster))"
    by (simp add: distributed_sort_def)
  also have "\<dots> = bindE (snd (parallel_sort mem g (map sort_impl cluster))) (\<lambda>outs. Inr (map sort_impl outs))"
    unfolding par_sort_impl_def e by (simp add: snd_bindT)
  finally show ?thesis .
qed

lemma distributed_sort_closed:
  assumes ne: "cluster \<noteq> []"
    and al: "list_all (aligned n_cols) cluster"
    and small: "sum_list (map (\<lambda>t. length (fst t)) cluster) < 2147483648"
    and rb: "root_bounds mem (length cluster) (all_samples_of g (map fst (map sort_impl cluster))) = Inr bounds"
  shows "distributed_sort mem g cluster =
           Inr (map sort_impl
                  (shuffled_tables
                     (count_matrix (length cluster) bounds (map fst (map sort_impl cluster)))
                     n_cols (map sort_impl cluster)))"
proof -
  let ?pre = "map sort_impl cluster"
  have ne': "?pre \<noteq> []" using ne by simp
  have al': "list_all (aligned n_cols) ?pre"
    using al by (simp add: list_all_iff aligned_sort_impl)
  have len: "map length (map fst ?pre) = map (\<lambda>t. length (fst t)) cluster"
    by (simp add: o_def)
  have small': "sum_list (map length (map fst ?pre)) < 2147483648"
    unfolding len by (rule small)
  have rb': "root_bounds mem (length ?pre) (all_samples_of g (map fst ?pre)) = Inr bounds"
    using rb by simp
  show ?thesis
    unfolding distributed_sort_eq parallel_sort_shuffles [OF ne' al' small' rb']
    by simp
qed

lemma run_nodes_par_sort_impl:
  "run_nodes mem g [Sort_impl, Tup_impl, Par_sort_impl] cluster
     = par_sort_impl mem g (map sort_impl cluster)"
  by simp

lemma run_pipeline:
  assumes ne: "cluster \<noteq> []"
    and al: "list_all (aligned n_cols) cluster"
    and small: "sum_list (map (\<lambda>t. length (fst t)) cluster) < 2147483648"
  shows "\<exists>samples bounds dests.
     length samples = length cluster \<and> length dests = length cluster \<and>
     (\<forall>r<length cluster.
        sampler (g r) (length cluster) (sum_list (map (\<lambda>t. length (fst t)) cluster))
          (fst (sort_impl (cluster ! r))) = Inr (samples ! r)) \<and>
     bounds_coordinator mem (length cluster) samples = Inr (replicate (length cluster) bounds) \<and>
     (\<forall>r<length cluster.
        \<exists>m. route (length cluster) (fst (sort_impl (cluster ! r))) bounds = Inr (dests ! r, m)) \<and>
     run_nodes mem g [Sort_impl, Tup_impl, Par_sort_impl] cluster =
       ([Dist_reduce, Gatherv, Bcast, Alltoall, Alltoallv, Alltoallv_tup],
        Inr (map sort_impl
               (shuffled_tables (map (\<lambda>d. map (count_list d) [0..<length cluster]) dests)
                  n_cols (map sort_impl cluster))))"
proof -
  let ?n = "length cluster"
  let ?N = "sum_list (map (\<lambda>t. length (fst t)) cluster)"
  let ?pre = "map sort_impl cluster"
  let ?keys = "map fst ?pre"
  let ?samples = "map (\<lambda>r. samples_of (g r) ?n ?N (?keys ! r)) [0..<?n]"
  have pos: "0 < ?n" using ne by simp
  have len: "map length ?keys = map (\<lambda>t. length (fst t)) cluster"
    by (simp add: o_def)
  have all: "all_samples_of g ?keys = concat ?samples"
    unfolding all_samples_of_def len by simp
  let ?b = "map (\<lambda>i. unchecked_read mem (sort (concat ?samples))
                       (cut_index (length (concat ?samples)) ?n i)) [0..<?n - 1]"
  have rb0: "root_bounds mem ?n (concat ?samples) = Inr ?b"
    by (rule root_bounds_eq [OF pos])
  have rb: "root_bounds mem ?n (all_samples_of g ?keys) = Inr ?b"
    unfolding all by (rule rb0)
  have lb: "length ?b = ?n - 1" by simp
  let ?dests = "map (\<lambda>r. scan ?n ?b 0 (?keys ! r)) [0..<?n]"
  have k: "?keys ! r = fst (sort_impl (cluster ! r))" if "r < ?n" for r
    using that by simp
  have sm: "\<forall>r<?n. sampler (g r) ?n ?N (fst (sort_impl (cluster ! r))) = Inr (?samples ! r)"
    by (simp add: sampler_total samples_of_def)
  have bc: "bounds_coordinator mem ?n ?samples = Inr (replicate ?n ?b)"
    by (simp only: bounds_coordinator_def gatherv_def rb0 bindE_Inr bcast_def)
  have rt: "\<forall>r<?n. \<exists>m. route ?n (fst (sort_impl (cluster ! r))) ?b = Inr (?dests ! r, m)"
  proof (intro allI impI)
    fix r assume r: "r < ?n"
    have "route ?n (fst (sort_impl (cluster ! r))) ?b =
       Inr (scan ?n ?b 0 (fst (sort_impl (cluster ! r))),
            (alloc_shuffle_metadata (fst (sort_impl (cluster ! r))) ?n)
              \<lparr>send_counts := fold bump (scan ?n ?b 0 (fst (sort_impl (cluster ! r)))) (replicate ?n 0)\<rparr>)"
      by (rule route_eq [OF pos lb])
    moreover have "?dests ! r = scan ?n ?b 0 (fst (sort_impl (cluster ! r)))"
      using r by simp
    ultimately show "\<exists>m. route ?n (fst (sort_impl (cluster ! r))) ?b = Inr (?dests ! r, m)"
      by simp
  qed
  have cm: "map (\<lambda>d. map (count_list d) [0..<?n]) ?dests = count_matrix ?n ?b ?keys"
  proof -
    have "count_matrix ?n ?b ?keys
            = map (\<lambda>key_arr. map (count_list (scan ?n ?b 0 key_arr)) [0..<?n])
                (map (\<lambda>r. ?keys ! r) [0..<length ?keys])"
      unfolding count_matrix_def by (simp only: map_nth)
    then show ?thesis by (simp add: o_def)
  qed
  have d: "distributed_sort mem g cluster =
           Inr (map sort_impl (shuffled_tables (count_matrix ?n ?b ?keys) n_cols ?pre))"
    by (rule distributed_sort_closed [OF ne al small rb])
  then have sn: "snd (par_sort_impl mem g ?pre) =
           Inr (map sort_impl (shuffled_tables (count_matrix ?n ?b ?keys) n_cols ?pre))"
    by (simp add: distributed_sort_def)
  have ft: "fst (par_sort_impl mem g ?pre) = [Dist_reduce, Gatherv, Bcast, Alltoall, Alltoallv, Alltoallv_tup]"
    by (rule par_sort_impl_trace [OF sn])
  have run: "run_nodes mem g [Sort_impl, Tup_impl, Par_sort_impl] cluster =
       ([Dist_reduce, Gatherv, Bcast, Alltoall, Alltoallv, Alltoallv_tup],
        Inr (map sort_impl
               (shuffled_tables (map (\<lambda>d. map (count_list d) [0..<?n]) ?dests) n_cols ?pre)))"
    unfolding run_nodes_par_sort_impl cm using sn ft by (simp add: prod_eq_iff)
  have ls: "length ?samples = ?n" by simp
  have ld: "length ?dests = ?n" by simp
  show ?thesis
    by (intro exI [of _ ?samples] exI [of _ ?b] exI [of _ ?dests] conjI)
       (rule ls ld sm bc rt run)+
qed

lemma three_worker_run:
  "distributed_sort mem (\<lambda>r j. j) [([0, 0, 0::int], []::nat list list), ([1, 2], []), ([5], [])]
     = Inr [([], []), ([0, 0, 0, 1, 5], []), ([2], [])]"
proof -
  let ?c = "[([0, 0, 0::int], []::nat list list), ([1, 2], []), ([5], [])]"
  have pre: "map sort_impl ?c = ?c"
    by code_simp
  have s: "all_samples_of (\<lambda>r j. j) (map fst ?c) = [0, 0, 0, 1, 2, 5]"
    by code_simp
  have b: "root_bounds mem 3 [0, 0, 0, 1, 2, 5::int] = Inr [0, 2]"
    by code_simp
  have l: "length ?c = 3" by simp
  have rb: "root_bounds mem (length ?c) (all_samples_of (\<lambda>r j. j) (map fst (map sort_impl ?c))) = Inr [0, 2]"
    unfolding pre s l by (rule b)
  have cm: "count_matrix 3 [0, 2] (map fst ?c) = [[0, 3, 0], [0, 1, 1], [0, 1, 0]]"
    by code_simp
  have sh: "shuffled_tables [[0, 3, 0], [0, 1, 1], [0, 1, 0]] 0 ?c
              = [([], []), ([0, 0, 0, 1, 5], []), ([2], [])]"
    by code_simp
  have fin: "map sort_impl [([], []), ([0, 0, 0, 1, 5::int], []::nat list list), ([2], [])]
              = [([], []), ([0, 0, 0, 1, 5], []), ([2], [])]"
    by code_simp
  have "distributed_sort mem (\<lambda>r j. j) ?c =
           Inr (map sort_impl
                  (shuffled_tables
                     (count_matrix (length ?c) [0, 2] (map fst (map sort_impl ?c)))
                     0 (map sort_impl ?c)))"
    by (rule distributed_sort_closed [OF _ _ _ rb]) (simp_all add: aligned_def)
  also have "\<dots> = Inr [([], []), ([0, 0, 0, 1, 5], []), ([2], [])]"
    unfolding pre l cm sh fin by (rule refl)
  finally show ?thesis .
qed

lemma perm_of_sorted: "sorted key_arr \<Longrightarrow> perm_of key_arr = [0..<length key_arr]"
  unfolding perm_of_def by (rule sort_key_id_if_sorted) (simp add: map_nth)

lemma sort_impl_sorted_keys: "sorted key_arr \<Longrightarrow> sort_impl (key_arr, []) = (key_arr, [])"
  by (simp add: sort_impl_eq perm_of_sorted map_nth)

lemma int32_le: "0 \<le> x \<Longrightarrow> int32 x \<le> x"
  using zmod_le_nonneg_dividend [of "x + 2147483648" 4294967296] by (simp add: int32_def)

lemma route_single:
  "route (Suc 0) key_arr [] =
     Inr (replicate (length key_arr) 0,
          (alloc_shuffle_metadata key_arr (Suc 0))\<lparr>send_counts := [int32 (int (length key_arr))]\<rparr>)"
proof -
  let ?d = "scan (Suc 0) [] 0 key_arr"
  have d: "?d = replicate (length key_arr) 0" by (rule scan_single)
  have "fold bump ?d (replicate (Suc 0) 0) ! 0 = int32 (replicate (Suc 0) 0 ! 0 + int (count_list ?d 0))"
    by (rule fold_bump_nth) (simp_all add: d int32_def)
  then have "fold bump ?d (replicate (Suc 0) 0) ! 0 = int32 (int (length key_arr))"
    by (simp add: d count_list_replicate_same)
  moreover have "length (fold bump ?d (replicate (Suc 0) 0)) = 1" by simp
  ultimately have "fold bump ?d (replicate (Suc 0) 0) = [int32 (int (length key_arr))]"
    using list_of_length_one [of "fold bump ?d (replicate (Suc 0) 0)"] by simp
  then show ?thesis
    using route_eq [of "Suc 0" "[]" key_arr] d by simp
qed

lemma parallel_sort_single:
  assumes "int32 (int (length key_arr)) = int c"
  shows "snd (parallel_sort mem g [(key_arr, [])]) = Inr [(take c key_arr, [])]"
proof -
  have le: "\<not> length key_arr < c"
    using int32_le [of "int (length key_arr)"] assms by simp
  have mn: "min (length key_arr) c = c" using le by simp
  have r: "read_all (map Some (take c key_arr)) = Inr (take c key_arr)" by simp
  show ?thesis
    by (simp add: parallel_sort_def Let_def snd_bindT dist_reduce_sum_def sampler_total gatherv_def
        root_bounds_single bcast_def route_single assms finalize_shuffle_meta_def alltoall_def
        py_index_def finalize_impl_def calc_disp_def alltoallv_def mpi_alltoallv_def sent_segment_def
        slice_def write_at_def alloc_arr_tup_def alltoallv_tup_def le mn del: read_all_Some)
       (simp add: r)
qed

lemma single_worker_wraps:
  "distributed_sort mem g [(replicate 4294967296 (0::int), []::nat list list)] = Inr [([], [])]"
proof -
  let ?k = "replicate 4294967296 (0::int)"
  have s: "sorted ?k" by (simp add: sorted_replicate)
  have c: "int32 (int (length ?k)) = int 0" by (simp add: int32_def)
  have p: "snd (parallel_sort mem g [(?k, []::nat list list)]) = Inr [(take 0 ?k, [])]"
    by (rule parallel_sort_single [OF c])
  show ?thesis
    unfolding distributed_sort_eq
    by (simp add: sort_impl_sorted_keys [OF s] p)
qed

section \<open>The exchange moves whole rows\<close>

lemma mapR_simps [simp]: "mapR h (Inl e) = Inl e" "mapR h (Inr x) = Inr (h x)"
  by (simp_all add: mapR_def)

lemma bindE_map_sum:
  "bindE (mapR h m) k = bindE m (\<lambda>x. k (h x))"
  by (cases m) simp_all

lemma map_sum_bindE:
  "mapR h (bindE m k) = bindE m (\<lambda>x. mapR h (k x))"
  by (cases m) simp_all

lemma mapE_natural:
  "(\<And>x. x \<in> set xs \<Longrightarrow> k' x = mapR h (k x)) \<Longrightarrow>
     mapE k' xs = mapR (map h) (mapE k xs)"
proof (induction xs)
  case Nil
  then show ?case by simp
next
  case (Cons x xs)
  then have "mapE k' xs = mapR (map h) (mapE k xs)" by simp
  with Cons.prems [of x] show ?case
    by (cases "k x"; cases "mapE k xs") simp_all
qed

lemma slice_map: "slice (map f buf) d c = mapR (map f) (slice buf d c)"
  by (simp add: slice_def take_map drop_map)

lemma write_at_map:
  "write_at (map (map_option f) buf) d (map f seg)
     = mapR (map (map_option f)) (write_at buf d seg)"
  by (simp add: write_at_def take_map drop_map)

lemma sent_segment_map:
  "s < length calls \<Longrightarrow>
     sent_segment (map (map_args f) calls) r s = mapR (map f) (sent_segment calls r s)"
  by (simp add: sent_segment_def map_args_def slice_map map_sum_bindE)

lemma receive_all_map:
  assumes "r < length calls"
  shows "\<forall>s\<in>set ss. s < length calls \<Longrightarrow>
     receive_all (map (map_args f) calls) r ss (map (map_option f) buf)
       = mapR (map (map_option f)) (receive_all calls r ss buf)"
proof (induction ss arbitrary: buf)
  case Nil
  then show ?case by simp
next
  case (Cons s ss)
  have s: "s < length calls" using Cons.prems by simp
  have ih: "receive_all (map (map_args f) calls) r ss (map (map_option f) buf')
       = mapR (map (map_option f)) (receive_all calls r ss buf')" for buf'
    using Cons.prems by (intro Cons.IH) simp
  have rc: "recvcounts (map (map_args f) calls ! r) = recvcounts (calls ! r)"
    and rd: "rdispls (map (map_args f) calls ! r) = rdispls (calls ! r)"
    using assms by (simp_all add: map_args_def)
  show ?case
    unfolding receive_all.simps sent_segment_map [OF s] rc rd bindE_map_sum
    by (cases "sent_segment calls r s")
       (auto simp: bindE_def write_at_map ih split: sum.splits)
qed

lemma mpi_alltoallv_map:
  "mpi_alltoallv (map (map_args f) calls)
     = mapR (map (map (map_option f))) (mpi_alltoallv calls)"
proof -
  have "receive_all (map (map_args f) calls) r [0..<length calls]
          (recvbuf (map (map_args f) calls ! r))
        = mapR (map (map_option f))
            (receive_all calls r [0..<length calls] (recvbuf (calls ! r)))"
    if "r \<in> set [0..<length calls]" for r
  proof -
    have r: "r < length calls" using that by simp
    have "recvbuf (map (map_args f) calls ! r) = map (map_option f) (recvbuf (calls ! r))"
      using r by (simp add: map_args_def)
    then show ?thesis using receive_all_map [OF r, of "[0..<length calls]" f] by simp
  qed
  then show ?thesis
    unfolding mpi_alltoallv_def length_map by (rule mapE_natural)
qed

lemma read_all_map: "read_all (map (map_option f) buf) = mapR (map f) (read_all buf)"
  unfolding read_all_def
  by (induction buf) (auto simp: bindE_def split: sum.splits option.splits)

lemma read_all_Inr_D: "read_all buf = Inr xs \<Longrightarrow> buf = map Some xs"
  unfolding read_all_def
  by (induction buf arbitrary: xs) (auto simp: bindE_def split: sum.splits option.splits)

lemma bindE_assoc: "bindE (bindE m f) k = bindE m (\<lambda>x. bindE (f x) k)"
  by (cases m) simp_all

lemma bindE_Inr_E:
  assumes "bindE m f = Inr y"
  obtains x where "m = Inr x" and "f x = Inr y"
  using assms by (cases m) simp_all

lemma parallel_sort_split:
  "snd (parallel_sort mem g cluster)
     = bindE (shuffle_plan mem g (map fst cluster)) (payload (map fst cluster) (map snd cluster))"
  unfolding parallel_sort_def shuffle_plan_def payload_def Let_def
  by (simp only: snd_bindT snd_collective_call snd_local_step bindE_Inr bindE_assoc length_map)

lemma finalize_impl_Inr_D:
  assumes "finalize_impl arr m recvd = Inr m'"
  shows "out_arr m' = replicate (nat (n_out m')) None" and "0 \<le> n_out m'"
    and "send_counts m' = send_counts m"
  using assms by (auto simp: finalize_impl_def Let_def split: if_splits)

lemma shuffle_plan_Inr_D:
  assumes "shuffle_plan mem g key_arrs = Inr metas"
  shows "length metas = length key_arrs"
    and "r < length key_arrs \<Longrightarrow> out_arr (metas ! r) = replicate (nat (n_out (metas ! r))) None"
    and "r < length key_arrs \<Longrightarrow> 0 \<le> n_out (metas ! r)"
proof -
  from assms obtain samples root_value routed where
    rt: "mapE (\<lambda>my_rank. route (length key_arrs) (key_arrs ! my_rank)
                                     (bcast (length key_arrs) root_value ! my_rank))
                      [0..<length key_arrs] = Inr routed"
    and f: "snd (finalize_shuffle_meta key_arrs (map snd routed)) = Inr metas"
    unfolding shuffle_plan_def by (elim bindE_Inr_E) blast
  have lr: "length routed = length key_arrs" using mapE_Inr_D [OF rt] by simp
  from f obtain recvd where
    m: "mapE (\<lambda>r. finalize_impl (key_arrs ! r) (map snd routed ! r) (recvd ! r))
          [0..<length (map snd routed)] = Inr metas"
    unfolding finalize_shuffle_meta_def snd_bindT snd_collective_call snd_local_step
    by (elim bindE_Inr_E) blast
  from mapE_Inr_D [OF m] have lm: "length metas = length key_arrs"
    and each: "\<forall>i<length key_arrs.
       finalize_impl (key_arrs ! i) (map snd routed ! i) (recvd ! i) = Inr (metas ! i)"
    by (simp_all add: lr)
  show "length metas = length key_arrs" by (rule lm)
  show "out_arr (metas ! r) = replicate (nat (n_out (metas ! r))) None" if "r < length key_arrs"
    using each that finalize_impl_Inr_D(1) by blast
  show "0 \<le> n_out (metas ! r)" if "r < length key_arrs"
    using each that finalize_impl_Inr_D(2) by blast
qed

lemma slice_subset: "slice buf d c = Inr seg \<Longrightarrow> set seg \<subseteq> set buf"
  by (auto simp: slice_def split: if_splits dest: in_set_takeD in_set_dropD)

lemma sent_segment_subset:
  "sent_segment calls r s = Inr seg \<Longrightarrow> set seg \<subseteq> set (sendbuf (calls ! s))"
  unfolding sent_segment_def by (elim bindE_Inr_E) (rule slice_subset)

lemma write_at_subset: "write_at buf d seg = Inr buf' \<Longrightarrow> set buf' \<subseteq> set buf \<union> Some ` set seg"
  by (auto simp: write_at_def split: if_splits dest: in_set_takeD in_set_dropD)

lemma receive_all_elements:
  "receive_all calls r ss buf = Inr buf' \<Longrightarrow> Some x \<in> set buf' \<Longrightarrow>
     Some x \<in> set buf \<or> (\<exists>s\<in>set ss. x \<in> set (sendbuf (calls ! s)))"
proof (induction ss arbitrary: buf)
  case Nil
  then show ?case by simp
next
  case (Cons s ss)
  from Cons.prems(1) obtain seg c d buf1 where
    seg: "sent_segment calls r s = Inr seg"
    and w: "write_at buf d seg = Inr buf1"
    and rest: "receive_all calls r ss buf1 = Inr buf'"
    unfolding receive_all.simps
    by (elim bindE_Inr_E) (auto split: if_splits elim: bindE_Inr_E)
  from Cons.IH [OF rest Cons.prems(2)]
  have "Some x \<in> set buf1 \<or> (\<exists>s\<in>set ss. x \<in> set (sendbuf (calls ! s)))" .
  then show ?case
  proof
    assume "Some x \<in> set buf1"
    then have "Some x \<in> set buf \<or> x \<in> set seg" using write_at_subset [OF w] by auto
    then show ?thesis using sent_segment_subset [OF seg] by auto
  next
    assume "\<exists>s\<in>set ss. x \<in> set (sendbuf (calls ! s))"
    then show ?thesis by auto
  qed
qed

lemma mpi_alltoallv_elements:
  assumes "mpi_alltoallv calls = Inr outs" and "r < length calls" and "Some x \<in> set (outs ! r)"
  shows "Some x \<in> set (recvbuf (calls ! r)) \<or> (\<exists>s<length calls. x \<in> set (sendbuf (calls ! s)))"
proof -
  from mapE_Inr_D [OF assms(1) [unfolded mpi_alltoallv_def]] assms(2)
  have "receive_all calls r [0..<length calls] (recvbuf (calls ! r)) = Inr (outs ! r)"
    by simp
  from receive_all_elements [OF this assms(3)] show ?thesis by auto
qed

lemma mpi_alltoallv_length: "mpi_alltoallv calls = Inr outs \<Longrightarrow> length outs = length calls"
  using mapE_Inr_D [of _ "[0..<length calls]" outs] by (simp add: mpi_alltoallv_def)

lemma mapR_Inr_E:
  assumes "mapR h m = Inr y"
  obtains x where "m = Inr x" and "y = h x"
  using assms by (cases m) simp_all

lemma payload_aligned:
  assumes ne: "cluster \<noteq> []"
    and al: "list_all (aligned n_cols) cluster"
    and lm: "length metas = length cluster"
    and oa: "\<And>r. r < length cluster \<Longrightarrow> out_arr (metas ! r) = replicate (nat (n_out (metas ! r))) None"
    and nn: "\<And>r. r < length cluster \<Longrightarrow> 0 \<le> n_out (metas ! r)"
    and pl: "payload (map fst cluster) (map snd cluster) metas = Inr outs"
  shows "\<exists>touts. mpi_alltoallv (tag_calls cluster metas) = Inr (map (map Some) touts) \<and>
           length touts = length cluster \<and>
           outs = map (\<lambda>r. (map (key_at cluster) (touts ! r),
                            map (\<lambda>c. map (value_at cluster c) (touts ! r)) [0..<n_cols]))
                    [0..<length cluster]"
proof -
  let ?P = "length cluster"
  let ?K = "key_at cluster"
  let ?T = "tag_calls cluster metas"
  from pl obtain shuffled out_datas received where
    a2: "snd (alltoallv (map fst cluster) metas) = Inr shuffled"
    and alc: "mapE (\<lambda>my_rank. alloc_arr_tup (n_out (shuffled ! my_rank)) (map snd cluster ! my_rank))
                [0..<?P] = Inr out_datas"
    and tup: "alltoallv_tup (map snd cluster) out_datas
                (map send_counts shuffled) (map recv_counts shuffled)
                (map send_disp shuffled) (map recv_disp shuffled) = Inr received"
    and rd: "mapE (\<lambda>my_rank.
                bindE (read_all (out_arr (shuffled ! my_rank)))
                  (\<lambda>out. bindE (mapE read_all (received ! my_rank))
                     (\<lambda>out_data. Inr (out, out_data))))
              [0..<?P] = Inr outs"
    unfolding payload_def length_map by (elim bindE_Inr_E) blast
  \<comment> \<open>the key exchange is the tag exchange read through the keys\<close>
  have kc: "map (\<lambda>r. \<lparr>sendbuf = map fst cluster ! r, recvbuf = out_arr (metas ! r),
                        sendcounts = send_counts (metas ! r),
                        recvcounts = recv_counts (metas ! r),
                        sdispls = send_disp (metas ! r),
                        rdispls = recv_disp (metas ! r)\<rparr>) [0..<?P]
            = map (map_args ?K) ?T"
    unfolding tag_calls_def map_map
  proof (rule map_cong [OF refl])
    fix r assume "r \<in> set [0..<?P]"
    then have r: "r < ?P" by simp
    have "map fst cluster ! r = map ?K (tags cluster ! r)"
      using arg_cong [OF keys_from_tags [of cluster], of "\<lambda>xs. xs ! r"] r
      by (simp add: tags_def)
    then show "\<lparr>sendbuf = map fst cluster ! r, recvbuf = out_arr (metas ! r),
                        sendcounts = send_counts (metas ! r),
                        recvcounts = recv_counts (metas ! r),
                        sdispls = send_disp (metas ! r),
                        rdispls = recv_disp (metas ! r)\<rparr>
        = (map_args ?K \<circ> (\<lambda>r. \<lparr>sendbuf = tags cluster ! r,
                 recvbuf = replicate (nat (n_out (metas ! r))) None,
                 sendcounts = send_counts (metas ! r),
                 recvcounts = recv_counts (metas ! r),
                 sdispls = send_disp (metas ! r),
                 rdispls = recv_disp (metas ! r)\<rparr>)) r"
      using oa [OF r] by (simp add: map_args_def)
  qed
  from a2 obtain kouts where
    mk: "mpi_alltoallv (map (map_args ?K) ?T) = Inr kouts"
    and sh: "shuffled = map (\<lambda>r. (metas ! r)\<lparr>out_arr := kouts ! r\<rparr>) [0..<?P]"
    unfolding alltoallv_def snd_bindT snd_collective_call snd_local_step lm kc
    by (elim bindE_Inr_E) auto
  from mk obtain touts' where
    mt: "mpi_alltoallv ?T = Inr touts'"
    and ko: "kouts = map (map (map_option ?K)) touts'"
    unfolding mpi_alltoallv_map by (elim mapR_Inr_E)
  have lt: "length touts' = ?P"
    using mpi_alltoallv_length [OF mt] by (simp add: tag_calls_def)
  \<comment> \<open>the column buffers\<close>
  have od: "out_datas ! r = map (\<lambda>col. replicate (nat (n_out (metas ! r))) None) (snd (cluster ! r))"
    if r: "r < ?P" for r
  proof -
    have "alloc_arr_tup (n_out (shuffled ! r)) (map snd cluster ! r) = Inr (out_datas ! r)"
      using mapE_Inr_D [OF alc] r by simp
    then show ?thesis using r nn [OF r] by (simp add: sh alloc_arr_tup_def)
  qed
  have nc: "(case map snd cluster of [] \<Rightarrow> 0 | data # _ \<Rightarrow> length data) = n_cols"
    using ne al by (cases cluster) (simp_all add: aligned_def)
  from tup obtain by_col where
    bc: "mapE (\<lambda>c. mpi_alltoallv
               (map (\<lambda>r. \<lparr>sendbuf = map snd cluster ! r ! c, recvbuf = out_datas ! r ! c,
                           sendcounts = map send_counts shuffled ! r,
                           recvcounts = map recv_counts shuffled ! r,
                           sdispls = map send_disp shuffled ! r,
                           rdispls = map recv_disp shuffled ! r\<rparr>)
                    [0..<?P])) [0..<n_cols] = Inr by_col"
    and rc: "received = map (\<lambda>r. map (\<lambda>col. col ! r) by_col) [0..<?P]"
    unfolding alltoallv_tup_def Let_def length_map nc
    by (auto split: if_splits elim!: bindE_Inr_E)
  have col: "mpi_alltoallv
               (map (\<lambda>r. \<lparr>sendbuf = map snd cluster ! r ! c, recvbuf = out_datas ! r ! c,
                           sendcounts = map send_counts shuffled ! r,
                           recvcounts = map recv_counts shuffled ! r,
                           sdispls = map send_disp shuffled ! r,
                           rdispls = map recv_disp shuffled ! r\<rparr>)
                    [0..<?P])
             = Inr (map (map (map_option (value_at cluster c))) touts')"
    if "c \<in> set [0..<n_cols]" for c
  proof -
    have c: "c < n_cols" using that by simp
    have "map (\<lambda>r. \<lparr>sendbuf = map snd cluster ! r ! c, recvbuf = out_datas ! r ! c,
                           sendcounts = map send_counts shuffled ! r,
                           recvcounts = map recv_counts shuffled ! r,
                           sdispls = map send_disp shuffled ! r,
                           rdispls = map recv_disp shuffled ! r\<rparr>)
                    [0..<?P]
          = map (map_args (value_at cluster c)) ?T"
      unfolding tag_calls_def map_map
    proof (rule map_cong [OF refl])
      fix r assume "r \<in> set [0..<?P]"
      then have r: "r < ?P" by simp
      have ar: "aligned n_cols (cluster ! r)" using al r by (simp add: list_all_length)
      have cl: "c < length (snd (cluster ! r))" using alignedD(1) [OF ar] c by simp
      have "column cluster c ! r = map (value_at cluster c) (tags cluster ! r)"
        using arg_cong [OF column_from_tags [OF al c], of "\<lambda>xs. xs ! r"] r
        by (simp add: tags_def)
      then have sb: "snd (cluster ! r) ! c = map (value_at cluster c) (tags cluster ! r)"
        using r by (simp add: column_def)
      show "\<lparr>sendbuf = map snd cluster ! r ! c, recvbuf = out_datas ! r ! c,
                           sendcounts = map send_counts shuffled ! r,
                           recvcounts = map recv_counts shuffled ! r,
                           sdispls = map send_disp shuffled ! r,
                           rdispls = map recv_disp shuffled ! r\<rparr>
        = (map_args (value_at cluster c) \<circ> (\<lambda>r. \<lparr>sendbuf = tags cluster ! r,
                 recvbuf = replicate (nat (n_out (metas ! r))) None,
                 sendcounts = send_counts (metas ! r),
                 recvcounts = recv_counts (metas ! r),
                 sdispls = send_disp (metas ! r),
                 rdispls = recv_disp (metas ! r)\<rparr>)) r"
        using r cl by (simp add: map_args_def sb od [OF r] sh)
    qed
    then show ?thesis by (simp only: mpi_alltoallv_map mt mapR_simps)
  qed
  have "mapE (\<lambda>c. mpi_alltoallv
               (map (\<lambda>r. \<lparr>sendbuf = map snd cluster ! r ! c, recvbuf = out_datas ! r ! c,
                           sendcounts = map send_counts shuffled ! r,
                           recvcounts = map recv_counts shuffled ! r,
                           sdispls = map send_disp shuffled ! r,
                           rdispls = map recv_disp shuffled ! r\<rparr>)
                    [0..<?P])) [0..<n_cols]
        = Inr (map (\<lambda>c. map (map (map_option (value_at cluster c))) touts') [0..<n_cols])"
    by (rule mapE_cong_Inr) (rule col)
  with bc have byc: "by_col = map (\<lambda>c. map (map (map_option (value_at cluster c))) touts') [0..<n_cols]"
    by simp
  have rcv: "received ! r = map (\<lambda>c. map (map_option (value_at cluster c)) (touts' ! r)) [0..<n_cols]"
    if r: "r < ?P" for r
    using r lt by (simp add: rc byc o_def)
  \<comment> \<open>reading the buffers\<close>
  have each: "\<exists>o_r. touts' ! r = map Some o_r \<and>
                outs ! r = (map ?K o_r, map (\<lambda>c. map (value_at cluster c) o_r) [0..<n_cols])"
    if r: "r < ?P" for r
  proof -
    have "bindE (read_all (out_arr (shuffled ! r)))
            (\<lambda>out. bindE (mapE read_all (received ! r)) (\<lambda>out_data. Inr (out, out_data)))
          = Inr (outs ! r)"
      using mapE_Inr_D [OF rd] r by simp
    moreover have "out_arr (shuffled ! r) = map (map_option ?K) (touts' ! r)"
      using r lt by (simp add: sh ko)
    ultimately obtain out out_data where
      ro: "read_all (map (map_option ?K) (touts' ! r)) = Inr out"
      and rdat: "mapE read_all (received ! r) = Inr out_data"
      and o: "outs ! r = (out, out_data)"
      by (auto elim!: bindE_Inr_E)
    from ro obtain o_r where t: "read_all (touts' ! r) = Inr o_r" and out: "out = map ?K o_r"
      unfolding read_all_map by (elim mapR_Inr_E)
    have ts: "touts' ! r = map Some o_r" by (rule read_all_Inr_D [OF t])
    have "received ! r = map (\<lambda>c. map Some (map (value_at cluster c) o_r)) [0..<n_cols]"
      unfolding rcv [OF r] ts by (simp add: o_def)
    then have "mapE read_all (received ! r) = Inr (map (\<lambda>c. map (value_at cluster c) o_r) [0..<n_cols])"
      by (simp only: mapE_read_all_Some)
    with rdat have "out_data = map (\<lambda>c. map (value_at cluster c) o_r) [0..<n_cols]" by simp
    with o out ts show ?thesis by blast
  qed
  let ?to = "map (\<lambda>r. map the (touts' ! r)) [0..<?P]"
  have tor: "touts' ! r = map Some (?to ! r)
             \<and> outs ! r = (map ?K (?to ! r), map (\<lambda>c. map (value_at cluster c) (?to ! r)) [0..<n_cols])"
    if r: "r < ?P" for r
  proof -
    from each [OF r] obtain o_r where t: "touts' ! r = map Some o_r"
      and o: "outs ! r = (map ?K o_r, map (\<lambda>c. map (value_at cluster c) o_r) [0..<n_cols])"
      by blast
    have "?to ! r = o_r" using r by (simp add: t o_def)
    with t o show ?thesis by simp
  qed
  have lo: "length outs = ?P" using mapE_Inr_D [OF rd] by simp
  have e1: "touts' = map (map Some) ?to"
    by (rule nth_equalityI) (use lt tor in \<open>simp_all del: map_map\<close>)
  have e2: "outs = map (\<lambda>r. (map ?K (?to ! r), map (\<lambda>c. map (value_at cluster c) (?to ! r)) [0..<n_cols]))
                    [0..<?P]"
    by (rule nth_equalityI) (use lo tor in \<open>simp_all del: map_map\<close>)
  show ?thesis
    by (rule exI [of _ ?to]) (use mt e1 e2 in \<open>simp del: map_map\<close>)
qed

lemma tag_in_range:
  assumes "s < length cluster" and "p \<in> set (tags cluster ! s)"
  shows "fst p < length cluster \<and> snd p < length (fst (cluster ! fst p))"
  using assms by (auto simp: tags_def)

lemma two_worker_shuffle:
  "snd (parallel_sort mem (\<lambda>r j. j)
          [([5, 1, 9::int], [[''a'', ''b'', ''c'']]), ([3, 8, 2], [[''d'', ''e'', ''f'']])])
     = Inr [([3], [[''d'']]), ([5, 1, 9, 8, 2], [[''a'', ''b'', ''c'', ''e'', ''f'']])]"
proof -
  let ?c = "[([5, 1, 9::int], [[''a'', ''b'', ''c'']]), ([3, 8, 2], [[''d'', ''e'', ''f'']])]"
  have l: "length ?c = 2" by simp
  have s: "all_samples_of (\<lambda>r j. j) (map fst ?c) = [5, 1, 9, 3, 8, 2]"
    by code_simp
  have b: "root_bounds mem 2 [5, 1, 9, 3, 8, 2::int] = Inr [5]"
    by code_simp
  have rb: "root_bounds mem (length ?c) (all_samples_of (\<lambda>r j. j) (map fst ?c)) = Inr [5]"
    unfolding s l by (rule b)
  have cm: "count_matrix 2 [5] (map fst ?c) = [[0, 3], [1, 2]]"
    by code_simp
  have sh: "shuffled_tables [[0, 3], [1, 2]] 1 ?c
              = [([3], [[''d'']]), ([5, 1, 9, 8, 2], [[''a'', ''b'', ''c'', ''e'', ''f'']])]"
    by code_simp
  have "snd (parallel_sort mem (\<lambda>r j. j) ?c)
          = Inr (shuffled_tables (count_matrix (length ?c) [5] (map fst ?c)) 1 ?c)"
    by (rule parallel_sort_shuffles [OF _ _ _ rb]) (simp_all add: aligned_def)
  then show ?thesis unfolding l cm sh .
qed

section \<open>The claims about the orchestrator and the degenerate input\<close>

text \<open>
  Claim C8.  When the least classification of the key array and the data columns is
  replicated, \<open>sort_distributed_run\<close> emits the local sort alone, which calls no
  collective and leaves every worker its own rows, in ascending key order.  Otherwise it
  emits the local sort, the tuple and \<open>par_sort_impl\<close>.  That run calls a collective,
  and when it returns it has called all six in order.  On aligned tables of fewer than \<open>2^31\<close> rows in total it is
  the whole pipeline: every worker samples its locally sorted keys, the coordinator cuts
  the boundaries out of these samples and hands every worker the same ones, the router
  gives every locally sorted row a destination, the exchange sends worker \<open>r\<close> the rows
  counted toward \<open>r\<close>, source after source in rank order, and every worker sorts what
  it received.  \<open>sort_distributed_analysis\<close> gives every array of the node that least
  classification.
\<close>

theorem sort_distributed_run_shortcut:
  assumes "array_dists (sort_key_arr sort_node) = Some key_dist"
    and "those (map array_dists (map snd (sort_df_vars sort_node))) = Some col_dists"
  shows "sort_distributed_run sort_node array_dists =
           Inr (if common_dist key_dist col_dists = REP then [Sort_impl]
                else [Sort_impl, Tup_impl, Par_sort_impl]) \<and>
         (\<exists>array_dists'. sort_distributed_analysis sort_node array_dists = Inr array_dists' \<and>
            (\<forall>v\<in>set (sort_key_arr sort_node # map snd (sort_df_vars sort_node)).
               array_dists' v = Some (common_dist key_dist col_dists))) \<and>
         run_nodes mem g [Sort_impl] cluster = ([], Inr (map sort_impl cluster)) \<and>
         (\<forall>t\<in>set cluster.
            sorted (fst (sort_impl t)) \<and> mset (rows_of (sort_impl t)) = mset (rows_of t)) \<and>
         fst (run_nodes mem g [Sort_impl, Tup_impl, Par_sort_impl] cluster) \<noteq> [] \<and>
         (\<forall>outs. snd (run_nodes mem g [Sort_impl, Tup_impl, Par_sort_impl] cluster) = Inr outs \<longrightarrow>
            fst (run_nodes mem g [Sort_impl, Tup_impl, Par_sort_impl] cluster) =
              [Dist_reduce, Gatherv, Bcast, Alltoall, Alltoallv, Alltoallv_tup]) \<and>
         (cluster \<noteq> [] \<and> list_all (aligned n_cols) cluster \<and>
          sum_list (map (\<lambda>t. length (fst t)) cluster) < 2147483648 \<longrightarrow>
            (\<exists>samples bounds dests.
               length samples = length cluster \<and> length dests = length cluster \<and>
               (\<forall>r<length cluster.
                  sampler (g r) (length cluster) (sum_list (map (\<lambda>t. length (fst t)) cluster))
                    (fst (sort_impl (cluster ! r))) = Inr (samples ! r)) \<and>
               bounds_coordinator mem (length cluster) samples
                 = Inr (replicate (length cluster) bounds) \<and>
               (\<forall>r<length cluster.
                  \<exists>m. route (length cluster) (fst (sort_impl (cluster ! r))) bounds
                        = Inr (dests ! r, m)) \<and>
               run_nodes mem g [Sort_impl, Tup_impl, Par_sort_impl] cluster =
                 ([Dist_reduce, Gatherv, Bcast, Alltoall, Alltoallv, Alltoallv_tup],
                  Inr (map sort_impl
                         (shuffled_tables
                            (map (\<lambda>d. map (count_list d) [0..<length cluster]) dests)
                            n_cols (map sort_impl cluster))))))"
proof -
  have t: "those (map array_dists (sort_key_arr sort_node # map snd (sort_df_vars sort_node)))
             = Some (key_dist # col_dists)"
    using assms by simp
  have a: "sort_distributed_run sort_node array_dists =
           Inr (if common_dist key_dist col_dists = REP then [Sort_impl]
                else [Sort_impl, Tup_impl, Par_sort_impl])"
    unfolding sort_distributed_run_def Let_def t option.case fold_parallel common_dist_REP
    by simp
  have b: "\<exists>array_dists'. sort_distributed_analysis sort_node array_dists = Inr array_dists' \<and>
            (\<forall>v\<in>set (sort_key_arr sort_node # map snd (sort_df_vars sort_node)).
               array_dists' v = Some (common_dist key_dist col_dists))"
    unfolding sort_distributed_analysis_def Let_def assms option.case
    by (auto simp add: fold_upd_map common_dist_def)
  have c: "run_nodes mem g [Sort_impl] cluster = ([], Inr (map sort_impl cluster))"
    by (simp add: local_step_def bindT_def)
  have c': "\<forall>t\<in>set cluster.
            sorted (fst (sort_impl t)) \<and> mset (rows_of (sort_impl t)) = mset (rows_of t)"
    by (simp add: sorted_fst_sort_impl mset_rows_of_sort_impl)
  have d: "fst (run_nodes mem g [Sort_impl, Tup_impl, Par_sort_impl] cluster) \<noteq> []"
    unfolding run_nodes_par_sort_impl by (rule par_sort_impl_calls)
  have e: "\<forall>outs. snd (run_nodes mem g [Sort_impl, Tup_impl, Par_sort_impl] cluster) = Inr outs \<longrightarrow>
            fst (run_nodes mem g [Sort_impl, Tup_impl, Par_sort_impl] cluster) =
              [Dist_reduce, Gatherv, Bcast, Alltoall, Alltoallv, Alltoallv_tup]"
    unfolding run_nodes_par_sort_impl using par_sort_impl_trace by blast
  have f: "cluster \<noteq> [] \<and> list_all (aligned n_cols) cluster \<and>
          sum_list (map (\<lambda>t. length (fst t)) cluster) < 2147483648 \<longrightarrow>
            (\<exists>samples bounds dests.
               length samples = length cluster \<and> length dests = length cluster \<and>
               (\<forall>r<length cluster.
                  sampler (g r) (length cluster) (sum_list (map (\<lambda>t. length (fst t)) cluster))
                    (fst (sort_impl (cluster ! r))) = Inr (samples ! r)) \<and>
               bounds_coordinator mem (length cluster) samples
                 = Inr (replicate (length cluster) bounds) \<and>
               (\<forall>r<length cluster.
                  \<exists>m. route (length cluster) (fst (sort_impl (cluster ! r))) bounds
                        = Inr (dests ! r, m)) \<and>
               run_nodes mem g [Sort_impl, Tup_impl, Par_sort_impl] cluster =
                 ([Dist_reduce, Gatherv, Bcast, Alltoall, Alltoallv, Alltoallv_tup],
                  Inr (map sort_impl
                         (shuffled_tables
                            (map (\<lambda>d. map (count_list d) [0..<length cluster]) dests)
                            n_cols (map sort_impl cluster)))))"
    using run_pipeline [of cluster n_cols g mem] by blast
  show ?thesis by (intro conjI) (rule a b c c' d e f)+
qed

text \<open>
  Claim C8 at a key array classified \<open>OneD\<close> with one data column classified
  \<open>OneD_Var\<close>, on the specification's scenario: two workers, keys \<open>[5, 1, 9]\<close> and
  \<open>[3, 8, 2]\<close>, one tag column.
\<close>

theorem sort_distributed_run_shortcut_witness:
  "[''A'' \<mapsto> OneD, ''B'' \<mapsto> OneD_Var] ''A'' = Some OneD \<and>
   those (map [''A'' \<mapsto> OneD, ''B'' \<mapsto> OneD_Var] (map snd [(''c'', ''B'')])) = Some [OneD_Var] \<and>
   [([5, 1, 9::int], [[''a'', ''b'', ''c'']]), ([3, 8, 2], [[''d'', ''e'', ''f'']])] \<noteq> [] \<and>
   list_all (aligned 1) [([5, 1, 9::int], [[''a'', ''b'', ''c'']]), ([3, 8, 2], [[''d'', ''e'', ''f'']])] \<and>
   sort_distributed_run \<lparr>sort_df_in = ''df'', sort_key_arr = ''A'', sort_df_vars = [(''c'', ''B'')]\<rparr>
     [''A'' \<mapsto> OneD, ''B'' \<mapsto> OneD_Var] = Inr [Sort_impl, Tup_impl, Par_sort_impl] \<and>
   run_nodes (\<lambda>j. 0) (\<lambda>r j. j) [Sort_impl]
       [([5, 1, 9::int], [[''a'', ''b'', ''c'']]), ([3, 8, 2], [[''d'', ''e'', ''f'']])]
     = ([], Inr [([1, 5, 9], [[''b'', ''a'', ''c'']]), ([2, 3, 8], [[''f'', ''d'', ''e'']])]) \<and>
   run_nodes (\<lambda>j. 0) (\<lambda>r j. j) [Sort_impl, Tup_impl, Par_sort_impl]
       [([5, 1, 9::int], [[''a'', ''b'', ''c'']]), ([3, 8, 2], [[''d'', ''e'', ''f'']])]
     = ([Dist_reduce, Gatherv, Bcast, Alltoall, Alltoallv, Alltoallv_tup],
        Inr [([1, 2, 3], [[''b'', ''f'', ''d'']]), ([5, 8, 9], [[''a'', ''e'', ''c'']])])"
proof -
  let ?n = "\<lparr>sort_df_in = ''df'', sort_key_arr = ''A'', sort_df_vars = [(''c'', ''B'')]\<rparr>"
  let ?d = "[''A'' \<mapsto> OneD, ''B'' \<mapsto> OneD_Var]"
  let ?c = "[([5, 1, 9::int], [[''a'', ''b'', ''c'']]), ([3, 8, 2], [[''d'', ''e'', ''f'']])]"
  let ?mem = "\<lambda>j::int. 0::int"
  let ?g = "\<lambda>(r::nat) (j::nat). j"
  have h: "?d (sort_key_arr ?n) = Some OneD"
    "those (map ?d (map snd (sort_df_vars ?n))) = Some [OneD_Var]"
    by simp_all
  have hc: "?c \<noteq> [] \<and> list_all (aligned 1) ?c \<and> sum_list (map (\<lambda>t. length (fst t)) ?c) < 2147483648"
    by (simp add: aligned_def)
  have cd: "common_dist OneD [OneD_Var] \<noteq> REP"
    by (simp add: common_dist_def min_dist_def)
  have lc: "length ?c = 2" by simp
  have N: "sum_list (map (\<lambda>t. length (fst t)) ?c) = 6" by simp
  have pre: "map sort_impl ?c = [([1, 5, 9], [[''b'', ''a'', ''c'']]), ([2, 3, 8], [[''f'', ''d'', ''e'']])]"
    by code_simp
  have p: "fst (sort_impl (?c ! 0)) = [1, 5, 9]" "fst (sort_impl (?c ! 1)) = [2, 3, 8]"
    by code_simp+
  from sort_distributed_run_shortcut [OF h, of ?mem ?g ?c 1] hc obtain samples bounds dests where
    run: "sort_distributed_run ?n ?d =
           Inr (if common_dist OneD [OneD_Var] = REP then [Sort_impl]
                else [Sort_impl, Tup_impl, Par_sort_impl])"
    and loc: "run_nodes ?mem ?g [Sort_impl] ?c = ([], Inr (map sort_impl ?c))"
    and ls: "length samples = length ?c" and ld: "length dests = length ?c"
    and sm: "\<forall>r<length ?c. sampler (?g r) (length ?c) (sum_list (map (\<lambda>t. length (fst t)) ?c))
                    (fst (sort_impl (?c ! r))) = Inr (samples ! r)"
    and bc: "bounds_coordinator ?mem (length ?c) samples = Inr (replicate (length ?c) bounds)"
    and rt: "\<forall>r<length ?c. \<exists>m. route (length ?c) (fst (sort_impl (?c ! r))) bounds = Inr (dests ! r, m)"
    and par: "run_nodes ?mem ?g [Sort_impl, Tup_impl, Par_sort_impl] ?c =
                 ([Dist_reduce, Gatherv, Bcast, Alltoall, Alltoallv, Alltoallv_tup],
                  Inr (map sort_impl
                         (shuffled_tables
                            (map (\<lambda>d. map (count_list d) [0..<length ?c]) dests)
                            1 (map sort_impl ?c))))"
    by blast
  have two: "(0::nat) < 2" "(1::nat) < 2" by simp_all
  have n3: "n_loc_samples 2 6 3 = 3" by code_simp
  have l3: "length [1, 5, 9::int] = 3" "length [2, 3, 8::int] = 3" by simp_all
  have s0: "sampler (\<lambda>j. j) 2 6 [1, 5, 9::int] = Inr [1, 5, 9]"
    unfolding sampler_total l3 n3 by (simp add: upt_rec)
  have s1: "sampler (\<lambda>j. j) 2 6 [2, 3, 8::int] = Inr [2, 3, 8]"
    unfolding sampler_total l3 n3 by (simp add: upt_rec)
  have "samples ! 0 = [1, 5, 9]"
    using sm [rule_format, of 0] unfolding lc N p s0 using two by simp
  moreover have "samples ! 1 = [2, 3, 8]"
    using sm [rule_format, of 1] unfolding lc N p s1 using two by simp
  ultimately have sv: "samples = [[1, 5, 9], [2, 3, 8]]"
    using list_of_length_two [of samples] ls unfolding lc by simp
  have bv0: "bounds_coordinator ?mem 2 [[1, 5, 9], [2, 3, 8::int]] = Inr [[5], [5]]"
    by code_simp
  have "replicate 2 bounds = [[5], [5]]"
    using bc unfolding lc sv bv0 by simp
  then have bv: "bounds = [5]" by (simp add: numeral_2_eq_2)
  have pos: "(0::nat) < 2" "length [5::int] = 2 - 1" by simp_all
  have sc: "scan 2 [5] 0 [1, 5, 9::int] = [0, 1, 1]" "scan 2 [5] 0 [2, 3, 8::int] = [0, 0, 1]"
    by (simp_all add: Let_def)
  have r0: "map_sum id fst (route 2 [1, 5, 9::int] [5]) = Inr [0, 1, 1]"
    unfolding route_eq [OF pos] sc by simp
  have r1: "map_sum id fst (route 2 [2, 3, 8::int] [5]) = Inr [0, 0, 1]"
    unfolding route_eq [OF pos] sc by simp
  from rt [rule_format, of 0] obtain m0 where "route 2 [1, 5, 9::int] [5] = Inr (dests ! 0, m0)"
    unfolding lc p bv using two by blast
  then have d0: "dests ! 0 = [0, 1, 1]" using r0 by simp
  from rt [rule_format, of 1] obtain m1 where "route 2 [2, 3, 8::int] [5] = Inr (dests ! 1, m1)"
    unfolding lc p bv using two by blast
  then have d1: "dests ! 1 = [0, 0, 1]" using r1 by simp
  have dv: "dests = [[0, 1, 1], [0, 0, 1]]"
    using list_of_length_two [of dests] ld d0 d1 unfolding lc by simp
  have cm: "map (\<lambda>d. map (count_list d) [0..<2]) [[0, 1, 1], [0, 0, 1::nat]] = [[1, 2], [2, 1]]"
    by code_simp
  have sh: "shuffled_tables [[1, 2], [2, 1]] 1
              [([1, 5, 9::int], [[''b'', ''a'', ''c'']]), ([2, 3, 8], [[''f'', ''d'', ''e'']])]
            = [([1, 2, 3], [[''b'', ''f'', ''d'']]), ([5, 9, 8], [[''a'', ''c'', ''e'']])]"
    by code_simp
  have fin: "map sort_impl [([1, 2, 3::int], [[''b'', ''f'', ''d'']]), ([5, 9, 8], [[''a'', ''c'', ''e'']])]
            = [([1, 2, 3], [[''b'', ''f'', ''d'']]), ([5, 8, 9], [[''a'', ''e'', ''c'']])]"
    by code_simp
  have par': "run_nodes ?mem ?g [Sort_impl, Tup_impl, Par_sort_impl] ?c =
                 ([Dist_reduce, Gatherv, Bcast, Alltoall, Alltoallv, Alltoallv_tup],
                  Inr [([1, 2, 3], [[''b'', ''f'', ''d'']]), ([5, 8, 9], [[''a'', ''e'', ''c'']])])"
    using par unfolding lc dv cm pre sh fin .
  have run': "sort_distributed_run ?n ?d = Inr [Sort_impl, Tup_impl, Par_sort_impl]"
    using run cd by simp
  have loc': "run_nodes ?mem ?g [Sort_impl] ?c
     = ([], Inr [([1, 5, 9], [[''b'', ''a'', ''c'']]), ([2, 3, 8], [[''f'', ''d'', ''e'']])])"
    using loc unfolding pre .
  from h hc run' loc' par' show ?thesis by simp
qed

text \<open>
  Claim C5 fails on the code.  Two workers hold no rows, so no sample is gathered.  The
  root still fills the one cell of \<open>bounds\<close>: it reads \<open>all_samples[-1]\<close> of the empty
  array, outside of it, and every worker gets a boundary sequence of one cell holding what
  the memory before the array held, not the empty sequence.  The call then returns the
  empty tables.
\<close>

theorem distributed_sort_all_empty:
  "bounds_coordinator mem 2 [[], []::int list] = Inr [[mem (- 1)], [mem (- 1)]] \<and>
   distributed_sort mem g [([]::int list, []::nat list list), ([], [])] = Inr [([], []), ([], [])]"
proof -
  let ?c = "[([]::int list, []::nat list list), ([], [])]"
  have rb0: "root_bounds mem 2 ([]::int list) = Inr (replicate (2 - 1) (mem (- 1)))"
    by (rule root_bounds_no_samples) simp
  then have rb1: "root_bounds mem 2 ([]::int list) = Inr [mem (- 1)]" by simp
  have rep: "replicate 2 x = [x, x]" for x :: "int list"
    by (simp add: numeral_2_eq_2)
  have gs: "gatherv [[], []::int list] = []" by (simp add: gatherv_def)
  have bc: "bounds_coordinator mem 2 [[], []::int list] = Inr [[mem (- 1)], [mem (- 1)]]"
    by (simp only: bounds_coordinator_def gs rb1 bindE_Inr bcast_def rep)
  have pre: "map sort_impl ?c = ?c" by simp
  have lc: "length ?c = 2" by simp
  have e: "samples_of (g r) n_pes n_total ([]::int list) = []" for r n_pes n_total
    using n_loc_samples_range [of n_pes n_total 0] by (simp add: samples_of_def)
  have s: "all_samples_of g (map fst ?c) = []"
    by (simp add: all_samples_of_def e)
  have rb: "root_bounds mem (length ?c) (all_samples_of g (map fst (map sort_impl ?c))) = Inr [mem (- 1)]"
    unfolding pre s lc by (rule rb1)
  have cm: "count_matrix 2 [mem (- 1)] (map fst ?c) = [[0, 0], [0, 0]]"
    by (simp add: count_matrix_def upt_rec)
  have sh: "shuffled_tables [[0, 0], [0, 0]] 0 ?c = ?c"
    by (simp add: shuffled_tables_def exchanged_def segment_of_def upt_rec)
  have "distributed_sort mem g ?c =
           Inr (map sort_impl
                  (shuffled_tables
                     (count_matrix (length ?c) [mem (- 1)] (map fst (map sort_impl ?c)))
                     0 (map sort_impl ?c)))"
    by (rule distributed_sort_closed [OF _ _ _ rb]) (simp_all add: aligned_def)
  also have "\<dots> = Inr ?c"
    unfolding pre lc cm sh by (simp only: pre)
  finally show ?thesis using bc by simp
qed

section \<open>The claims about the whole sort call\<close>

text \<open>
  Claim C2 fails on the code.  Three workers hold \<open>[0, 0, 0]\<close>, \<open>[1, 2]\<close> and \<open>[5]\<close>;
  every worker samples all its rows, so the boundaries are \<open>[0, 2]\<close>.  The routing loop
  advances by at most one boundary per row, so the single row \<open>5\<close> of the last worker
  stops at destination \<open>1\<close>, while the row \<open>2\<close> of the second worker reaches
  destination \<open>2\<close>.  The call returns \<open>[]\<close>, \<open>[0, 0, 0, 1, 5]\<close>, \<open>[2]\<close>, which is not
  non-decreasing in rank order.
\<close>

theorem distributed_sort_not_globally_sorted:
  "distributed_sort mem (\<lambda>r j. j) [([0, 0, 0::int], []::nat list list), ([1, 2], []), ([5], [])]
     = Inr [([], []), ([0, 0, 0, 1, 5], []), ([2], [])] \<and>
   \<not> sorted (concat (map fst [([], []), ([0, 0, 0, 1, 5::int], []::nat list list), ([2], [])]))"
  by (simp add: three_worker_run)

text \<open>
  Claim C3, amended.  For every cluster of one worker or more whose tables are aligned and
  hold fewer than \<open>2^31\<close> rows in total, the sort call returns one aligned table per
  worker, and the multiset of rows over all workers after the call is the multiset before
  it.
\<close>

theorem distributed_sort_conserves_rows:
  assumes ne: "cluster \<noteq> []"
    and al: "list_all (aligned n_cols) cluster"
    and small: "sum_list (map (\<lambda>t. length (fst t)) cluster) < 2147483648"
  shows "\<exists>outs. distributed_sort mem g cluster = Inr outs \<and> length outs = length cluster \<and>
           list_all (aligned n_cols) outs \<and>
           mset (concat (map rows_of outs)) = mset (concat (map rows_of cluster))"
proof -
  let ?pre = "map sort_impl cluster"
  let ?keys = "map fst ?pre"
  have len: "map length ?keys = map (\<lambda>t. length (fst t)) cluster"
    by (simp add: o_def)
  have pos: "0 < length ?keys" using ne by simp
  have "\<exists>bounds. root_bounds mem (length ?keys) (all_samples_of g ?keys) = Inr bounds"
    using root_bounds_eq [OF pos] by blast
  then obtain bounds where rb: "root_bounds mem (length cluster) (all_samples_of g ?keys) = Inr bounds"
    by auto
  let ?cm = "count_matrix (length cluster) bounds ?keys"
  let ?sh = "shuffled_tables ?cm n_cols ?pre"
  have d: "distributed_sort mem g cluster = Inr (map sort_impl ?sh)"
    by (rule distributed_sort_closed [OF ne al small rb])
  have al': "list_all (aligned n_cols) ?pre"
    using al by (simp add: list_all_iff aligned_sort_impl)
  have lcm: "length ?cm = length ?pre" by simp
  have lsh: "length ?sh = length cluster" by (simp add: shuffled_tables_def)
  have alsh: "list_all (aligned n_cols) ?sh" by (rule aligned_shuffled [OF al' lcm])
  have alout: "list_all (aligned n_cols) (map sort_impl ?sh)"
    using alsh by (simp add: list_all_iff aligned_sort_impl)
  have small': "sum_list (map length ?keys) < 2147483648"
    unfolding len by (rule small)
  have wf: "wf_counts ?cm (map length ?keys)"
    using wf_count_matrix [OF pos small', of bounds] by simp
  have rows: "map rows_of ?sh = map (exchanged ?cm (map rows_of ?pre)) [0..<length ?cm]"
  proof (rule nth_equalityI)
    show "length (map rows_of ?sh) = length (map (exchanged ?cm (map rows_of ?pre)) [0..<length ?cm])"
      by simp
  next
    fix r assume "r < length (map rows_of ?sh)"
    then have r: "r < length ?pre" by simp
    show "map rows_of ?sh ! r = map (exchanged ?cm (map rows_of ?pre)) [0..<length ?cm] ! r"
      using rows_of_shuffled [OF al' lcm r] r by simp
  qed
  have wf2: "\<forall>s<length ?cm. length (?cm ! s) = length ?cm \<and>
               sum_list (?cm ! s) = length (map rows_of ?pre ! s)"
  proof (intro allI impI)
    fix s assume s: "s < length ?cm"
    then have "s < length cluster" by simp
    then have "length (map rows_of ?pre ! s) = map length ?keys ! s"
      by (simp add: rows_of_def)
    then show "length (?cm ! s) = length ?cm \<and> sum_list (?cm ! s) = length (map rows_of ?pre ! s)"
      using wf_countsD(1,2) [OF wf s] by simp
  qed
  have "mset (concat (map rows_of (map sort_impl ?sh))) = mset (concat (map rows_of ?sh))"
    unfolding map_map o_def by (rule mset_concat_cong) (rule mset_rows_of_sort_impl)
  also have "\<dots> = mset (concat (map rows_of ?pre))"
    unfolding rows by (rule mset_exchanged [OF _ wf2]) simp
  also have "\<dots> = mset (concat (map rows_of cluster))"
    unfolding map_map o_def by (rule mset_concat_cong) (rule mset_rows_of_sort_impl)
  finally have m: "mset (concat (map rows_of (map sort_impl ?sh))) = mset (concat (map rows_of cluster))" .
  show ?thesis
    by (intro exI [of _ "map sort_impl ?sh"] conjI) (use d lsh alout m in simp_all)
qed

text \<open>
  The amended claim C3 at the specification's scenario: two workers, keys \<open>[5, 1, 9]\<close>
  and \<open>[3, 8, 2]\<close>, one tag column.
\<close>

theorem distributed_sort_conserves_rows_witness:
  "[([5, 1, 9::int], [[''a'', ''b'', ''c'']]), ([3, 8, 2], [[''d'', ''e'', ''f'']])] \<noteq> [] \<and>
   list_all (aligned 1) [([5, 1, 9::int], [[''a'', ''b'', ''c'']]), ([3, 8, 2], [[''d'', ''e'', ''f'']])] \<and>
   (\<exists>outs. distributed_sort (\<lambda>j. 0) (\<lambda>r j. j)
             [([5, 1, 9::int], [[''a'', ''b'', ''c'']]), ([3, 8, 2], [[''d'', ''e'', ''f'']])] = Inr outs \<and>
      mset (concat (map rows_of outs))
        = mset (concat (map rows_of
             [([5, 1, 9::int], [[''a'', ''b'', ''c'']]), ([3, 8, 2], [[''d'', ''e'', ''f'']])])))"
proof -
  let ?c = "[([5, 1, 9::int], [[''a'', ''b'', ''c'']]), ([3, 8, 2], [[''d'', ''e'', ''f'']])]"
  have h: "?c \<noteq> []" "list_all (aligned 1) ?c"
    "sum_list (map (\<lambda>t. length (fst t)) ?c) < 2147483648"
    by (simp_all add: aligned_def)
  from distributed_sort_conserves_rows [OF h, of "\<lambda>j. 0" "\<lambda>r j. j"] h(1,2) show ?thesis by blast
qed

text \<open>
  Claim C3 as stated fails.  A single worker with \<open>2^32\<close> rows counts them in 32 bits:
  the count wraps to \<open>0\<close>, the worker sends itself no row and returns an empty table.
\<close>

theorem distributed_sort_loses_rows:
  "distributed_sort (\<lambda>j. 0) (\<lambda>r j. j) [(replicate 4294967296 (0::int), []::nat list list)]
     = Inr [([], [])] \<and>
   length (concat (map rows_of [(replicate 4294967296 (0::int), []::nat list list)])) = 4294967296 \<and>
   concat (map rows_of [([]::int list, []::nat list list)]) = []"
  by (simp add: single_worker_wraps rows_of_def)

text \<open>
  Claim C4.  \<open>parallel_sort\<close> hands \<open>alltoallv_tup\<close> the send counts, receive counts
  and displacements of the metadata the key array was exchanged with.  Whenever the call
  returns on aligned tables, there is for every worker a list of origins, one tag (source
  worker, source index) per received row, namely what an exchange of the row tags with
  those same counts and displacements delivers, such that row \<open>i\<close> of the received key
  buffer and row \<open>i\<close> of every received column buffer are the key and the column values
  of the input row that origin \<open>i\<close> names.
\<close>

theorem shuffle_keeps_rows_aligned:
  assumes "cluster \<noteq> []" and "list_all (aligned n_cols) cluster"
    and "snd (parallel_sort mem g cluster) = Inr outs"
  shows "\<exists>metas origins.
           shuffle_plan mem g (map fst cluster) = Inr metas \<and>
           mpi_alltoallv (tag_calls cluster metas) = Inr (map (map Some) origins) \<and>
           length origins = length cluster \<and> length outs = length cluster \<and>
           (\<forall>r<length cluster.
              fst (outs ! r) = map (key_at cluster) (origins ! r) \<and>
              snd (outs ! r) = map (\<lambda>c. map (value_at cluster c) (origins ! r)) [0..<n_cols] \<and>
              (\<forall>p\<in>set (origins ! r).
                 fst p < length cluster \<and> snd p < length (fst (cluster ! fst p))))"
proof -
  from assms(3) obtain metas where
    sp: "shuffle_plan mem g (map fst cluster) = Inr metas"
    and pl: "payload (map fst cluster) (map snd cluster) metas = Inr outs"
    unfolding parallel_sort_split by (elim bindE_Inr_E)
  have lm: "length metas = length cluster"
    using shuffle_plan_Inr_D(1) [OF sp] by simp
  have oa: "out_arr (metas ! r) = replicate (nat (n_out (metas ! r))) None" if "r < length cluster" for r
    using shuffle_plan_Inr_D(2) [OF sp, of r] that by simp
  have nn: "0 \<le> n_out (metas ! r)" if "r < length cluster" for r
    using shuffle_plan_Inr_D(3) [OF sp, of r] that by simp
  from payload_aligned [OF assms(1,2) lm oa nn pl] obtain origins where
    mt: "mpi_alltoallv (tag_calls cluster metas) = Inr (map (map Some) origins)"
    and lo: "length origins = length cluster"
    and outs: "outs = map (\<lambda>r. (map (key_at cluster) (origins ! r),
                            map (\<lambda>c. map (value_at cluster c) (origins ! r)) [0..<n_cols]))
                    [0..<length cluster]"
    by blast
  have lc: "length (tag_calls cluster metas) = length cluster" by (simp add: tag_calls_def)
  have rng: "fst p < length cluster \<and> snd p < length (fst (cluster ! fst p))"
    if r: "r < length cluster" and p: "p \<in> set (origins ! r)" for r p
  proof -
    have "Some p \<in> set (map (map Some) origins ! r)" using r p lo by simp
    from mpi_alltoallv_elements [OF mt _ this] r
    have "Some p \<in> set (recvbuf (tag_calls cluster metas ! r))
            \<or> (\<exists>s<length cluster. p \<in> set (sendbuf (tag_calls cluster metas ! s)))"
      by (simp add: lc)
    then obtain s where "s < length cluster" and "p \<in> set (tags cluster ! s)"
      using r by (auto simp: tag_calls_def)
    then show ?thesis by (rule tag_in_range)
  qed
  have each: "\<forall>r<length cluster.
              fst (outs ! r) = map (key_at cluster) (origins ! r) \<and>
              snd (outs ! r) = map (\<lambda>c. map (value_at cluster c) (origins ! r)) [0..<n_cols] \<and>
              (\<forall>p\<in>set (origins ! r).
                 fst p < length cluster \<and> snd p < length (fst (cluster ! fst p)))"
    using rng by (simp add: outs)
  have lout: "length outs = length cluster" by (simp add: outs)
  from sp mt lo lout each show ?thesis by blast
qed

text \<open>
  Claim C4 at the specification's scenario: two workers, keys \<open>[5, 1, 9]\<close> and
  \<open>[3, 8, 2]\<close>, one tag column.
\<close>

theorem shuffle_keeps_rows_aligned_witness:
  "[([5, 1, 9::int], [[''a'', ''b'', ''c'']]), ([3, 8, 2], [[''d'', ''e'', ''f'']])] \<noteq> [] \<and>
   list_all (aligned 1) [([5, 1, 9::int], [[''a'', ''b'', ''c'']]), ([3, 8, 2], [[''d'', ''e'', ''f'']])] \<and>
   snd (parallel_sort (\<lambda>j. 0) (\<lambda>r j. j)
          [([5, 1, 9::int], [[''a'', ''b'', ''c'']]), ([3, 8, 2], [[''d'', ''e'', ''f'']])])
     = Inr [([3], [[''d'']]), ([5, 1, 9, 8, 2], [[''a'', ''b'', ''c'', ''e'', ''f'']])] \<and>
   (\<exists>origins.
      fst ([([3::int], [[''d'']]), ([5, 1, 9, 8, 2], [[''a'', ''b'', ''c'', ''e'', ''f'']])] ! 1)
        = map (key_at [([5, 1, 9::int], [[''a'', ''b'', ''c'']]), ([3, 8, 2], [[''d'', ''e'', ''f'']])])
            (origins ! 1) \<and>
      snd ([([3::int], [[''d'']]), ([5, 1, 9, 8, 2], [[''a'', ''b'', ''c'', ''e'', ''f'']])] ! 1)
        = map (\<lambda>c. map (value_at
                 [([5, 1, 9::int], [[''a'', ''b'', ''c'']]), ([3, 8, 2], [[''d'', ''e'', ''f'']])] c)
                 (origins ! 1)) [0..<1])"
proof -
  let ?c = "[([5, 1, 9::int], [[''a'', ''b'', ''c'']]), ([3, 8, 2], [[''d'', ''e'', ''f'']])]"
  have h: "?c \<noteq> []" "list_all (aligned 1) ?c"
    by (simp_all add: aligned_def)
  from shuffle_keeps_rows_aligned [OF h two_worker_shuffle] obtain origins where
    every: "\<forall>r<length ?c.
        fst ([([3::int], [[''d'']]), ([5, 1, 9, 8, 2], [[''a'', ''b'', ''c'', ''e'', ''f'']])] ! r)
          = map (key_at ?c) (origins ! r) \<and>
        snd ([([3::int], [[''d'']]), ([5, 1, 9, 8, 2], [[''a'', ''b'', ''c'', ''e'', ''f'']])] ! r)
          = map (\<lambda>c. map (value_at ?c c) (origins ! r)) [0..<1] \<and>
        (\<forall>p\<in>set (origins ! r). fst p < length ?c \<and> snd p < length (fst (?c ! fst p)))"
    by blast
  have one: "1 < length ?c" by simp
  from every [rule_format, OF one]
  have "fst ([([3::int], [[''d'']]), ([5, 1, 9, 8, 2], [[''a'', ''b'', ''c'', ''e'', ''f'']])] ! 1)
          = map (key_at ?c) (origins ! 1) \<and>
        snd ([([3::int], [[''d'']]), ([5, 1, 9, 8, 2], [[''a'', ''b'', ''c'', ''e'', ''f'']])] ! 1)
          = map (\<lambda>c. map (value_at ?c c) (origins ! 1)) [0..<1]"
    by blast
  with h two_worker_shuffle show ?thesis by blast
qed

end
